theory Spec2Isabelle
  imports Main "HOL-Library.Word" "HOL-Library.Code_Target_Numeral"
begin

section \<open>The OneNote CUPS backend: strings and buffers\<close>

text \<open>
  The program is \<^verbatim>\<open>src/cups-backend/onenote_backend.c\<close>. A C string is modelled as the
  list of its bytes before the terminating NUL, so the test \<^verbatim>\<open>title[i] != '\0'\<close> is the
  test that index \<open>i\<close> is inside the list.
\<close>

type_synonym path = string

definition dq :: char where "dq = CHR 0x22"
definition bsl :: char where "bsl = CHR 0x5C"
definition nl :: char where "nl = CHR 0x0A"
definition cr :: char where "cr = CHR 0x0D"
definition tab :: char where "tab = CHR 0x09"

text \<open>
  \<^verbatim>\<open>snprintf(buf, sz, ...)\<close> stores at most \<open>sz - 1\<close> bytes of the formatted
  text; the argument \<open>s\<close> is the text already formatted.
\<close>

definition snprintf :: "nat \<Rightarrow> string \<Rightarrow> string" where
  "snprintf sz s = take (sz - 1) s"

text \<open>The conversion \<^verbatim>\<open>%ld\<close>: decimal digits, with a minus sign for a negative value.\<close>

function dec_nat :: "nat \<Rightarrow> string" where
  "dec_nat n = (if n < 10 then [''0123456789'' ! n]
                else dec_nat (n div 10) @ [''0123456789'' ! (n mod 10)])"
  by pat_completeness auto
termination
  by (relation "measure (\<lambda>n. n)") auto

declare dec_nat.simps [simp del]

definition fmt_ld :: "int \<Rightarrow> string" where
  "fmt_ld i = (if i < 0 then CHR ''-'' # dec_nat (nat (- i)) else dec_nat (nat i))"

subsection \<open>Queue names (lines 171-193 of main)\<close>

definition rootDir :: path where "rootDir = ''/Users/Shared/OneNoteHelper''"
definition incomingDir :: path where "incomingDir = ''/Users/Shared/OneNoteHelper/Incoming''"
definition processingDir :: path where "processingDir = ''/Users/Shared/OneNoteHelper/Processing''"
definition doneDir :: path where "doneDir = ''/Users/Shared/OneNoteHelper/Done''"
definition failedDir :: path where "failedDir = ''/Users/Shared/OneNoteHelper/Failed''"

text \<open>\<^verbatim>\<open>char baseName[256]; snprintf(baseName, sizeof(baseName), "job-%s-%ld", job_id, (long)now)\<close>\<close>

definition baseName :: "string \<Rightarrow> int \<Rightarrow> string" where
  "baseName job_id now = snprintf 256 (''job-'' @ job_id @ ''-'' @ fmt_ld now)"

text \<open>
  \<^verbatim>\<open>char destDoc[PATH_MAX], destJson[PATH_MAX]\<close>. \<open>PATH_MAX\<close> comes from
  \<^verbatim>\<open><limits.h>\<close>, which is not part of the repository; it is a parameter here.
\<close>

definition destDoc :: "nat \<Rightarrow> string \<Rightarrow> int \<Rightarrow> string \<Rightarrow> path" where
  "destDoc PATH_MAX job_id now ext =
     snprintf PATH_MAX (incomingDir @ ''/'' @ baseName job_id now @ ''.'' @ ext)"

definition destJson :: "nat \<Rightarrow> string \<Rightarrow> int \<Rightarrow> path" where
  "destJson PATH_MAX job_id now =
     snprintf PATH_MAX (incomingDir @ ''/'' @ baseName job_id now @ ''.json'')"

subsection \<open>Title escaping (lines 210-226 of main)\<close>

text \<open>\<^verbatim>\<open>char escTitle[2048]\<close>; \<open>ei\<close> is the length of the part of the buffer filled so far.\<close>

definition ESC_SIZE :: nat where "ESC_SIZE = 2048"

function esc_loop :: "string \<Rightarrow> nat \<Rightarrow> string \<Rightarrow> nat \<times> string" where
  "esc_loop title i escTitle =
     (if i < length title \<and> length escTitle < ESC_SIZE - 1 then
        (let c = title ! i in
         if c = dq \<or> c = bsl then
           (if length escTitle + 2 \<ge> ESC_SIZE then (i, escTitle)
            else esc_loop title (i + 1) (escTitle @ [bsl, c]))
         else if c = nl \<or> c = cr \<or> c = tab then
           (if length escTitle + 2 \<ge> ESC_SIZE then (i, escTitle)
            else esc_loop title (i + 1)
                   (escTitle @ [bsl, if c = nl then CHR ''n'' else if c = cr then CHR ''r''
                                     else CHR ''t'']))
         else esc_loop title (i + 1) (escTitle @ [c]))
      else (i, escTitle))"
  by pat_completeness auto
termination
  by (relation "measure (\<lambda>(title, i, escTitle). length title - i)") auto

declare esc_loop.simps [simp del]

text \<open>The escaped title, and the number of title bytes that were escaped into it.\<close>

definition escape_title :: "string \<Rightarrow> string" where
  "escape_title title = snd (esc_loop title 0 [])"

definition escaped_count :: "string \<Rightarrow> nat" where
  "escaped_count title = fst (esc_loop title 0 [])"

text \<open>
  The escaping rule in the words of the specification, for one byte and for a whole
  string without any buffer, and its inverse. The inverse gives \<open>None\<close> on a text that
  is not validly escaped: a backslash that is last or followed by a byte other than
  a quote, a backslash, \<open>n\<close>, \<open>r\<close> or \<open>t\<close>, or a bare quote, newline, carriage return
  or tab.
\<close>

definition spec_escape_char :: "char \<Rightarrow> string" where
  "spec_escape_char c =
     (if c = dq \<or> c = bsl then [bsl, c]
      else if c = nl then [bsl, CHR ''n'']
      else if c = cr then [bsl, CHR ''r'']
      else if c = tab then [bsl, CHR ''t'']
      else [c])"

definition spec_escape :: "string \<Rightarrow> string" where
  "spec_escape s = concat (map spec_escape_char s)"

fun spec_unescape :: "string \<Rightarrow> string option" where
  "spec_unescape [] = Some []"
| "spec_unescape [c] =
     (if c = bsl \<or> c = dq \<or> c = nl \<or> c = cr \<or> c = tab then None else Some [c])"
| "spec_unescape (c # d # ds) =
     (if c = bsl then
        (if d = dq \<or> d = bsl then map_option ((#) d) (spec_unescape ds)
         else if d = CHR ''n'' then map_option ((#) nl) (spec_unescape ds)
         else if d = CHR ''r'' then map_option ((#) cr) (spec_unescape ds)
         else if d = CHR ''t'' then map_option ((#) tab) (spec_unescape ds)
         else None)
      else if c = dq \<or> c = nl \<or> c = cr \<or> c = tab then None
      else map_option ((#) c) (spec_unescape (d # ds)))"


section \<open>The file system and the operating system's answers\<close>

text \<open>
  The program runs as one process; the file system is modelled for that process alone.
  Regular files and directories are kept in two maps from path to node. Every change
  of the file system goes through \<open>fs_update\<close>, which keeps the state before the
  change in \<open>past\<close> (newest first), so that a property of every intermediate state
  can be stated. \<open>errno\<close> is modelled for \<^verbatim>\<open>mkdir\<close> only, the one place where the
  program reads it to decide what to do; \<^verbatim>\<open>strerror(errno)\<close> in diagnostics is left out.
\<close>

type_synonym mode_t = "16 word"

record meta =
  owner :: "nat \<times> nat"
  perm :: mode_t

record inode = meta +
  bytes :: string

datatype errno_t = E0 | EEXIST | EOTHER

datatype backend_status = CUPS_BACKEND_OK | CUPS_BACKEND_FAILED

text \<open>The diagnostics that main writes to the standard error stream, one constructor each.\<close>

datatype diag =
    InvalidArgc nat
  | TempCreateFailed path
  | OpenInputFailed path
  | WriteTempFailed
  | ReadInputFailed
  | WroteBytes "64 word" path
  | DetectedPostScript
  | GetpwnamFailed string
  | CreateDirFailed path
  | MoveCopyFailed path path
  | ChownFailed path
  | WriteJsonFailed path
  | Queued path

record world =
  files :: "path \<rightharpoonup> inode"
  dirs :: "path \<rightharpoonup> meta"
  errno :: errno_t
  past :: "((path \<rightharpoonup> inode) \<times> (path \<rightharpoonup> meta)) list"
  stderr :: "diag list"

definition fs_update :: "(path \<rightharpoonup> inode) \<Rightarrow> (path \<rightharpoonup> meta) \<Rightarrow> world \<Rightarrow> world" where
  "fs_update f d w = w\<lparr>files := f, dirs := d, past := (files w, dirs w) # past w\<rparr>"

definition fprintf_stderr :: "diag \<Rightarrow> world \<Rightarrow> world" where
  "fprintf_stderr m w = w\<lparr>stderr := stderr w @ [m]\<rparr>"

text \<open>All states the file system has been in, the current one first.\<close>

definition fs_states :: "world \<Rightarrow> ((path \<rightharpoonup> inode) \<times> (path \<rightharpoonup> meta)) list" where
  "fs_states w = (files w, dirs w) # past w"

record passwd =
  pw_uid :: nat
  pw_gid :: nat
  pw_dir :: "string option"

text \<open>
  What the operating system answers, call by call. The input of the job (the standard
  input or the file named by the seventh argument) is the sequence \<open>read_input\<close> of
  results of \<^verbatim>\<open>read(infd, ...)\<close>: \<open>None\<close> is the result -1, \<open>Some bs\<close> delivers the
  bytes \<open>bs\<close> (at most the count asked for), and \<open>Some []\<close> is the end of the input.
  \<open>write_temp j\<close> and \<open>copy_write j\<close> are what the \<open>j\<close>-th \<^verbatim>\<open>write\<close> returns when it is
  not cut by the count asked for: negative for an error, else the number of bytes taken.
  A field named \<open>..._ok\<close> says whether the call succeeds when the file system allows it.
\<close>

record os =
  getenv_TMPDIR :: "string option"
  mkstemp_name :: "string option"
  proc_owner :: "nat \<times> nat"
  umask :: mode_t
  open_input_ok :: bool
  read_input :: "nat \<Rightarrow> string option"
  write_temp :: "nat \<Rightarrow> int"
  sniff_open_ok :: "nat \<Rightarrow> bool"
  sniff_read_ok :: "nat \<Rightarrow> bool"
  getpwnam :: "string \<Rightarrow> passwd option"
  mkdir_ok :: "path \<Rightarrow> bool"
  chmod_ok :: "path \<Rightarrow> bool"
  chown_ok :: "path \<Rightarrow> bool"
  time_now :: int
  rename_ok :: bool
  copy_open_src_ok :: bool
  copy_open_dst_ok :: bool
  copy_read_ok :: "nat \<Rightarrow> bool"
  copy_write :: "nat \<Rightarrow> int"
  unlink_ok :: bool
  fopen_ok :: bool
  stdio_written :: "nat option"

subsection \<open>System calls\<close>

text \<open>
  The file system refuses, with \<^verbatim>\<open>ENAMETOOLONG\<close>, a path one of whose components
  (the parts between the slashes) is longer than \<^verbatim>\<open>NAME_MAX\<close> bytes; \<^verbatim>\<open>NAME_MAX\<close> is
  255 on macOS and on Linux. The calls that make a new name check it.
\<close>

definition NAME_MAX :: nat where "NAME_MAX = 255"

fun split_path :: "path \<Rightarrow> string list" where
  "split_path [] = [[]]"
| "split_path (c # cs) =
     (if c = CHR ''/'' then [] # split_path cs
      else (case split_path cs of [] \<Rightarrow> [[c]] | x # xs \<Rightarrow> (c # x) # xs))"

definition name_ok :: "path \<Rightarrow> bool" where
  "name_ok p = list_all (\<lambda>c. length c \<le> NAME_MAX) (split_path p)"

text \<open>\<^verbatim>\<open>read(fd, buf, count)\<close> on the job's input: the result and the bytes put in the buffer.\<close>

definition sys_read :: "string option \<Rightarrow> nat \<Rightarrow> int \<times> string" where
  "sys_read r count =
     (case r of None \<Rightarrow> (- 1, []) | Some bs \<Rightarrow> (int (length (take count bs)), take count bs))"

text \<open>
  \<^verbatim>\<open>read(fd, buf, count)\<close> at offset \<open>off\<close> of a regular file: all the bytes asked for
  unless fewer remain, or -1.
\<close>

definition file_bytes :: "world \<Rightarrow> path \<Rightarrow> string" where
  "file_bytes w p = (case files w p of None \<Rightarrow> [] | Some ino \<Rightarrow> bytes ino)"

definition sys_read_file :: "bool \<Rightarrow> world \<Rightarrow> path \<Rightarrow> nat \<Rightarrow> nat \<Rightarrow> int \<times> string" where
  "sys_read_file ok w p off count =
     (if ok then (int (length (take count (drop off (file_bytes w p)))),
                  take count (drop off (file_bytes w p)))
      else (- 1, []))"

text \<open>\<^verbatim>\<open>write(fd, buf, count)\<close>: the result.\<close>

definition sys_write :: "int \<Rightarrow> int \<Rightarrow> int" where
  "sys_write r count = (if r < 0 then - 1 else min r count)"

text \<open>The bytes of a successful \<^verbatim>\<open>write\<close> land at the end of the file behind the descriptor.\<close>

definition append_file :: "path \<Rightarrow> string \<Rightarrow> world \<Rightarrow> world" where
  "append_file p bs w =
     (case files w p of
        None \<Rightarrow> w
      | Some ino \<Rightarrow> fs_update ((files w)(p \<mapsto> ino\<lparr>bytes := bytes ino @ bs\<rparr>)) (dirs w) w)"

text \<open>\<^verbatim>\<open>open(path, O_WRONLY | O_CREAT | O_TRUNC, mode)\<close>, also what \<^verbatim>\<open>fopen(path, "w")\<close> does.\<close>

definition sys_open_creat_trunc :: "bool \<Rightarrow> os \<Rightarrow> path \<Rightarrow> mode_t \<Rightarrow> world \<Rightarrow> int \<times> world" where
  "sys_open_creat_trunc ok e p mode w =
     (if \<not> ok \<or> \<not> name_ok p \<or> dirs w p \<noteq> None then (- 1, w)
      else case files w p of
             None \<Rightarrow> (0, fs_update ((files w)(p \<mapsto>
                          \<lparr>owner = proc_owner e, perm = and mode (not (umask e)), bytes = []\<rparr>))
                          (dirs w) w)
           | Some ino \<Rightarrow> (0, fs_update ((files w)(p \<mapsto> ino\<lparr>bytes := []\<rparr>)) (dirs w) w))"

text \<open>
  \<^verbatim>\<open>mkstemp(template)\<close> replaces the trailing X's of the template by as many letters and
  digits and creates that file, which must be new, with mode 0600. \<open>None\<close> is the result
  -1; otherwise the template as rewritten in place, and the new world.
\<close>

definition alnum :: "char \<Rightarrow> bool" where
  "alnum c = (let n = (of_char c :: nat) in
                (48 \<le> n \<and> n \<le> 57) \<or> (65 \<le> n \<and> n \<le> 90) \<or> (97 \<le> n \<and> n \<le> 122))"

definition trailing_X :: "string \<Rightarrow> nat" where
  "trailing_X template = length (takeWhile (\<lambda>c. c = CHR ''X'') (rev template))"

definition mkstemp :: "os \<Rightarrow> string \<Rightarrow> world \<Rightarrow> (string \<times> world) option" where
  "mkstemp e template w =
     (case mkstemp_name e of
        None \<Rightarrow> None
      | Some sfx \<Rightarrow>
          (let p = take (length template - trailing_X template) template @ sfx in
           if length sfx = trailing_X template \<and> list_all alnum sfx \<and> name_ok p
              \<and> files w p = None \<and> dirs w p = None
           then Some (p, fs_update ((files w)(p \<mapsto>
                          \<lparr>owner = proc_owner e, perm = and 384 (not (umask e)), bytes = []\<rparr>))
                          (dirs w) w)
           else None))"

definition sys_mkdir :: "os \<Rightarrow> path \<Rightarrow> mode_t \<Rightarrow> world \<Rightarrow> int \<times> world" where
  "sys_mkdir e p mode w =
     (if \<not> name_ok p then (- 1, w\<lparr>errno := EOTHER\<rparr>)
      else if files w p \<noteq> None \<or> dirs w p \<noteq> None then (- 1, w\<lparr>errno := EEXIST\<rparr>)
      else if \<not> mkdir_ok e p then (- 1, w\<lparr>errno := EOTHER\<rparr>)
      else (0, fs_update (files w)
                 ((dirs w)(p \<mapsto> \<lparr>owner = proc_owner e, perm = and mode (not (umask e))\<rparr>)) w))"

definition sys_chmod :: "os \<Rightarrow> path \<Rightarrow> mode_t \<Rightarrow> world \<Rightarrow> int \<times> world" where
  "sys_chmod e p mode w =
     (if \<not> chmod_ok e p then (- 1, w)
      else case files w p of
             Some ino \<Rightarrow> (0, fs_update ((files w)(p \<mapsto> ino\<lparr>perm := mode\<rparr>)) (dirs w) w)
           | None \<Rightarrow>
              (case dirs w p of
                 Some m \<Rightarrow> (0, fs_update (files w) ((dirs w)(p \<mapsto> m\<lparr>perm := mode\<rparr>)) w)
               | None \<Rightarrow> (- 1, w)))"

definition sys_chown :: "os \<Rightarrow> path \<Rightarrow> nat \<Rightarrow> nat \<Rightarrow> world \<Rightarrow> int \<times> world" where
  "sys_chown e p u g w =
     (if \<not> chown_ok e p then (- 1, w)
      else case files w p of
             Some ino \<Rightarrow> (0, fs_update ((files w)(p \<mapsto> ino\<lparr>owner := (u, g)\<rparr>)) (dirs w) w)
           | None \<Rightarrow>
              (case dirs w p of
                 Some m \<Rightarrow> (0, fs_update (files w) ((dirs w)(p \<mapsto> m\<lparr>owner := (u, g)\<rparr>)) w)
               | None \<Rightarrow> (- 1, w)))"

definition sys_rename :: "os \<Rightarrow> path \<Rightarrow> path \<Rightarrow> world \<Rightarrow> int \<times> world" where
  "sys_rename e old new w =
     (if \<not> rename_ok e \<or> \<not> name_ok new \<or> files w old = None \<or> dirs w new \<noteq> None
      then (- 1, w)
      else if old = new then (0, w)
      else (0, fs_update ((files w)(new := files w old, old := None)) (dirs w) w))"

definition sys_unlink :: "os \<Rightarrow> path \<Rightarrow> world \<Rightarrow> int \<times> world" where
  "sys_unlink e p w =
     (if \<not> unlink_ok e \<or> files w p = None then (- 1, w)
      else (0, fs_update ((files w)(p := None)) (dirs w) w))"


section \<open>The functions of the program\<close>

subsection \<open>file_starts_with (lines 14-24)\<close>

text \<open>
  \<open>k\<close> counts the calls, to pick the operating system's answers for this one. The result
  of the C function is 0 or 1; it is a truth value here.
\<close>

definition file_starts_with :: "os \<Rightarrow> nat \<Rightarrow> path \<Rightarrow> string \<Rightarrow> world \<Rightarrow> bool" where
  "file_starts_with e k p prefix w =
     (if \<not> sniff_open_ok e k \<or> files w p = None then False
      else case sys_read_file (sniff_read_ok e k) w p 0 16 of
             (n, buf) \<Rightarrow>
               if n \<le> 0 then False
               else (let plen = length prefix in
                     if nat n < plen then False
                     else take plen buf = prefix))"

subsection \<open>ensure_dir and ensure_dirs_recursive (lines 26-50)\<close>

definition ensure_dir :: "os \<Rightarrow> path \<Rightarrow> mode_t \<Rightarrow> world \<Rightarrow> int \<times> world" where
  "ensure_dir e p mode w =
     (if p = [] then (- 1, w)
      else case sys_mkdir e p mode w of
             (r, w') \<Rightarrow>
               if r = 0 then (0, w')
               else if errno w' = EEXIST then (0, w')
               else (- 1, w'))"

text \<open>
  The loop of lines 40-48: \<open>i\<close> is the index \<^verbatim>\<open>p - tmp\<close>; putting a NUL at \<open>p\<close> makes
  \<^verbatim>\<open>tmp\<close> the string \<open>take i tmp\<close>. After the loop, line 49.
\<close>

function ensure_dirs_loop :: "os \<Rightarrow> string \<Rightarrow> nat \<Rightarrow> mode_t \<Rightarrow> world \<Rightarrow> int \<times> world" where
  "ensure_dirs_loop e tmp i mode w =
     (if i < length tmp then
        (if tmp ! i = CHR ''/'' then
           (case ensure_dir e (take i tmp) mode w of
              (r, w') \<Rightarrow>
                if r \<noteq> 0 \<and> errno w' \<noteq> EEXIST then (- 1, w')
                else ensure_dirs_loop e tmp (i + 1) mode w')
         else ensure_dirs_loop e tmp (i + 1) mode w)
      else ensure_dir e tmp mode w)"
  by pat_completeness auto
termination
  by (relation "measure (\<lambda>(e, tmp, i, mode, w). length tmp - i)") auto

declare ensure_dirs_loop.simps [simp del]

definition ensure_dirs_recursive :: "nat \<Rightarrow> os \<Rightarrow> path \<Rightarrow> mode_t \<Rightarrow> world \<Rightarrow> int \<times> world" where
  "ensure_dirs_recursive PATH_MAX e p mode w =
     (if p = [] \<or> length p \<ge> PATH_MAX then (- 1, w)
      else ensure_dirs_loop e p 1 mode w)"

subsection \<open>The write loops (lines 66-74 and 131-141)\<close>

text \<open>
  The inner loop of copy_file and of the capture in main is the same loop, but that main
  also adds each result to \<^verbatim>\<open>total_written\<close> (a \<^verbatim>\<open>size_t\<close>, 64 bits). \<open>wr\<close> gives the
  results of the calls of \<^verbatim>\<open>write\<close>, \<open>j\<close> counts them. The loop may run forever (when
  \<^verbatim>\<open>write\<close> keeps returning 0): then the value is \<open>None\<close>. The truth value returned
  is False when a \<^verbatim>\<open>write\<close> failed.
\<close>

partial_function (option) write_loop ::
  "(nat \<Rightarrow> int) \<Rightarrow> path \<Rightarrow> string \<Rightarrow> int \<Rightarrow> int \<Rightarrow> nat \<Rightarrow> 64 word \<Rightarrow> world
   \<Rightarrow> (bool \<times> nat \<times> 64 word \<times> world) option" where
  "write_loop wr p buf n off j tw w =
     (if off < n then
        (let wn = sys_write (wr j) (n - off) in
         if wn < 0 then Some (False, Suc j, tw, w)
         else write_loop wr p buf n (off + wn) (Suc j) (tw + word_of_int wn)
                (append_file p (take (nat wn) (drop (nat off) buf)) w))
      else Some (True, j, tw, w))"

subsection \<open>copy_file (lines 52-80)\<close>

text \<open>\<open>roff\<close> is the offset of the descriptor \<^verbatim>\<open>in\<close>, \<open>k\<close> counts the reads; \<open>rd k\<close>
  says whether the \<open>k\<close>-th read succeeds, \<open>wr\<close> is as in \<open>write_loop\<close>.\<close>

partial_function (option) copy_loop ::
  "(nat \<Rightarrow> bool) \<Rightarrow> (nat \<Rightarrow> int) \<Rightarrow> path \<Rightarrow> path \<Rightarrow> nat \<Rightarrow> nat \<Rightarrow> nat \<Rightarrow> world
   \<Rightarrow> (int \<times> world) option" where
  "copy_loop rd wr src dst roff k j w =
     (case sys_read_file (rd k) w src roff 8192 of
        (n, buf) \<Rightarrow>
          if n > 0 then
            (case write_loop wr dst buf n 0 j 0 w of
               None \<Rightarrow> None
             | Some (ok, j', t, w') \<Rightarrow>
                 if ok then copy_loop rd wr src dst (roff + nat n) (Suc k) j' w'
                 else Some (- 1, w'))
          else Some (if n < 0 then - 1 else 0, w))"

definition copy_file :: "os \<Rightarrow> path \<Rightarrow> path \<Rightarrow> mode_t \<Rightarrow> world \<Rightarrow> (int \<times> world) option" where
  "copy_file e src dst mode w =
     (if \<not> copy_open_src_ok e \<or> files w src = None then Some (- 1, w)
      else case sys_open_creat_trunc (copy_open_dst_ok e) e dst mode w of
             (out, w1) \<Rightarrow>
               if out < 0 then Some (- 1, w1)
               else copy_loop (copy_read_ok e) (copy_write e) src dst 0 0 0 w1)"

subsection \<open>main: capture of the job into the temp file (lines 82-154)\<close>

datatype capture_end = WriteError | ReadEnd int

text \<open>
  The loop of lines 129-142, which may run forever too. It ends with a failed \<^verbatim>\<open>write\<close>
  or with the result \<open>n \<le> 0\<close> of the last \<^verbatim>\<open>read\<close>; \<open>k\<close> counts the reads that
  delivered bytes, \<open>rd\<close> gives the results of the reads on the input.
\<close>

partial_function (option) capture_loop ::
  "(nat \<Rightarrow> string option) \<Rightarrow> (nat \<Rightarrow> int) \<Rightarrow> path \<Rightarrow> nat \<Rightarrow> nat \<Rightarrow> 64 word \<Rightarrow> world
   \<Rightarrow> (capture_end \<times> nat \<times> 64 word \<times> world) option" where
  "capture_loop rd wr tp k j tw w =
     (case sys_read (rd k) 8192 of
        (n, buffer) \<Rightarrow>
          if n > 0 then
            (case write_loop wr tp buffer n 0 j tw w of
               None \<Rightarrow> None
             | Some (ok, j', tw', w') \<Rightarrow>
                 if ok then capture_loop rd wr tp (Suc k) j' tw' w'
                 else Some (WriteError, k, tw', w'))
          else Some (ReadEnd n, k, tw, w))"

declare write_loop.simps [code] copy_loop.simps [code] capture_loop.simps [code]

subsection \<open>main: staging and the sidecar (lines 156-250)\<close>

text \<open>Lines 196-202: rename, else copy and unlink. The result is 0 when the document is staged.\<close>

definition stage :: "os \<Rightarrow> path \<Rightarrow> path \<Rightarrow> world \<Rightarrow> (int \<times> world) option" where
  "stage e templatePath dDoc w =
     (case sys_rename e templatePath dDoc w of
        (r, w1) \<Rightarrow>
          if r \<noteq> 0 then
            (case copy_file e templatePath dDoc 420 w1 of
               None \<Rightarrow> None
             | Some (c, w2) \<Rightarrow>
                 if c \<noteq> 0 then Some (- 1, fprintf_stderr (MoveCopyFailed templatePath dDoc) w2)
                 else Some (0, snd (sys_unlink e templatePath w2)))
          else Some (0, w1))"

text \<open>Lines 204-207 and 243-246: chown, with a diagnostic when it fails, then chmod 0644.\<close>

definition own :: "os \<Rightarrow> path \<Rightarrow> passwd \<Rightarrow> world \<Rightarrow> world" where
  "own e p pw w =
     (case sys_chown e p (pw_uid pw) (pw_gid pw) w of
        (r, w1) \<Rightarrow>
          snd (sys_chmod e p 420 (if r \<noteq> 0 then fprintf_stderr (ChownFailed p) w1 else w1)))"

text \<open>The text that line 233 prints into the sidecar.\<close>

definition json_text :: "string \<Rightarrow> string \<Rightarrow> string \<Rightarrow> string \<Rightarrow> string" where
  "json_text dDoc escTitle user job_id =
     ''{'' @ [nl] @
     ''  '' @ [dq] @ ''file'' @ [dq] @ '': '' @ [dq] @ dDoc @ [dq] @ '','' @ [nl] @
     ''  '' @ [dq] @ ''title'' @ [dq] @ '': '' @ [dq] @ escTitle @ [dq] @ '','' @ [nl] @
     ''  '' @ [dq] @ ''user'' @ [dq] @ '': '' @ [dq] @ user @ [dq] @ '','' @ [nl] @
     ''  '' @ [dq] @ ''job'' @ [dq] @ '': '' @ [dq] @ job_id @ [dq] @ [nl] @
     ''}'' @ [nl]"

text \<open>
  Lines 209-250. The results of \<^verbatim>\<open>fprintf\<close> and \<^verbatim>\<open>fclose\<close> are not checked: when the
  stream cannot be written in full, only the first \<open>stdio_written\<close> bytes reach the file.
\<close>

definition write_sidecar ::
  "os \<Rightarrow> path \<Rightarrow> path \<Rightarrow> string \<Rightarrow> string \<Rightarrow> string \<Rightarrow> passwd \<Rightarrow> world \<Rightarrow> backend_status \<times> world" where
  "write_sidecar e dDoc dJson title user job_id pw w =
     (let escTitle = escape_title title in
      case sys_open_creat_trunc (fopen_ok e) e dJson 438 w of
        (jf, w1) \<Rightarrow>
          if jf < 0 then (CUPS_BACKEND_FAILED, fprintf_stderr (WriteJsonFailed dJson) w1)
          else
            (let text = json_text dDoc escTitle user job_id;
                 w2 = append_file dJson
                        (case stdio_written e of None \<Rightarrow> text | Some m \<Rightarrow> take m text) w1;
                 w3 = own e dJson pw w2
             in (CUPS_BACKEND_OK, fprintf_stderr (Queued dDoc) w3)))"

text \<open>Lines 177-184: the five queue directories.\<close>

fun ensure_queue_dirs :: "nat \<Rightarrow> os \<Rightarrow> path list \<Rightarrow> world \<Rightarrow> bool \<times> world" where
  "ensure_queue_dirs PATH_MAX e [] w = (True, w)"
| "ensure_queue_dirs PATH_MAX e (d # ds) w =
     (case ensure_dirs_recursive PATH_MAX e d 511 w of
        (r, w1) \<Rightarrow>
          if r \<noteq> 0 then (False, fprintf_stderr (CreateDirFailed d) w1)
          else ensure_queue_dirs PATH_MAX e ds (snd (sys_chmod e d 1023 w1)))"

text \<open>Lines 156-163: the extension, and the world with the diagnostic of line 160.\<close>

definition sniff_ext :: "os \<Rightarrow> path \<Rightarrow> world \<Rightarrow> string \<times> world" where
  "sniff_ext e templatePath w =
     (if file_starts_with e 0 templatePath ''%!PS'' w then (''ps'', fprintf_stderr DetectedPostScript w)
      else if file_starts_with e 1 templatePath ''%PDF'' w then (''pdf'', w)
      else (''pdf'', w))"

text \<open>Lines 156-250, after the capture.\<close>

definition queue_job ::
  "nat \<Rightarrow> os \<Rightarrow> string \<Rightarrow> string \<Rightarrow> string \<Rightarrow> path \<Rightarrow> world \<Rightarrow> (backend_status \<times> world) option" where
  "queue_job PATH_MAX e job_id user title templatePath w =
     (case sniff_ext e templatePath w of
        (ext, w1) \<Rightarrow>
          (case getpwnam e user of
             None \<Rightarrow> Some (CUPS_BACKEND_FAILED, fprintf_stderr (GetpwnamFailed user) w1)
           | Some pw \<Rightarrow>
               if pw_dir pw = None
               then Some (CUPS_BACKEND_FAILED, fprintf_stderr (GetpwnamFailed user) w1)
               else
                 (case ensure_queue_dirs PATH_MAX e
                         [rootDir, incomingDir, processingDir, doneDir, failedDir] w1 of
                    (ok, w2) \<Rightarrow>
                      if \<not> ok then Some (CUPS_BACKEND_FAILED, w2)
                      else
                        (let now = time_now e;
                             dDoc = destDoc PATH_MAX job_id now ext;
                             dJson = destJson PATH_MAX job_id now
                         in case stage e templatePath dDoc w2 of
                              None \<Rightarrow> None
                            | Some (r, w3) \<Rightarrow>
                                if r \<noteq> 0 then Some (CUPS_BACKEND_FAILED, w3)
                                else Some (write_sidecar e dDoc dJson title user job_id pw
                                             (own e dDoc pw w3))))))"

subsection \<open>main (lines 82-154, then the rest)\<close>

definition default_tmpdir :: path where
  "default_tmpdir = ''/private/var/spool/cups/tmp''"

definition templatePath :: "os \<Rightarrow> path" where
  "templatePath e =
     (let tmpdir = (case getenv_TMPDIR e of
                      None \<Rightarrow> default_tmpdir
                    | Some d \<Rightarrow> if d = [] then default_tmpdir else d)
      in snprintf 1024 (tmpdir @ ''/onenote-print-XXXXXX''))"

text \<open>
  \<open>argv\<close> is the whole argument vector, the program's name first, and \<open>argc\<close> its
  length. The pointer \<^verbatim>\<open>file\<close> is tested by \<^verbatim>\<open>file && file[0]\<close> only, so the null
  pointer is the empty string here. \<open>tw\<close> is \<^verbatim>\<open>total_written\<close>. \<open>None\<close> is a run that
  does not return.
\<close>

definition main :: "nat \<Rightarrow> string list \<Rightarrow> os \<Rightarrow> world \<Rightarrow> (backend_status \<times> world) option" where
  "main PATH_MAX argv e w =
     (let argc = length argv in
      if argc = 1 then Some (CUPS_BACKEND_OK, w)
      else if argc \<noteq> 6 \<and> argc \<noteq> 7
      then Some (CUPS_BACKEND_FAILED, fprintf_stderr (InvalidArgc argc) w)
      else
        (let job_id = argv ! 1; user = argv ! 2; title = argv ! 3;
             file = (if argc = 7 then argv ! 6 else [])
         in case mkstemp e (templatePath e) w of
              None \<Rightarrow> Some (CUPS_BACKEND_FAILED, fprintf_stderr (TempCreateFailed (templatePath e)) w)
            | Some (tp, w1) \<Rightarrow>
                if file \<noteq> [] \<and> \<not> open_input_ok e
                then Some (CUPS_BACKEND_FAILED, fprintf_stderr (OpenInputFailed file) w1)
                else
                  (case capture_loop (read_input e) (write_temp e) tp 0 0 0 w1 of
                     None \<Rightarrow> None
                   | Some (WriteError, k, tw, w2) \<Rightarrow>
                       Some (CUPS_BACKEND_FAILED, fprintf_stderr WriteTempFailed w2)
                   | Some (ReadEnd n, k, tw, w2) \<Rightarrow>
                       if n < 0 then Some (CUPS_BACKEND_FAILED, fprintf_stderr ReadInputFailed w2)
                       else queue_job PATH_MAX e job_id user title tp
                              (fprintf_stderr (WroteBytes tw tp) w2))))"

section \<open>Predicates used in the proofs\<close>

text \<open>
  What holds of the result of \<open>esc_loop\<close> started at index \<open>i\<close>: the buffer is the
  escaping of the first \<open>i'\<close> bytes of the title, it fits, and the next byte of the
  title, if there is one, would not.
\<close>

definition esc_post :: "string \<Rightarrow> nat \<Rightarrow> nat \<times> string \<Rightarrow> bool" where
  "esc_post title i res = (case res of (i', r) \<Rightarrow>
      r = spec_escape (take i' title) \<and> i \<le> i' \<and> i' \<le> length title \<and> length r \<le> ESC_SIZE - 1 \<and>
      (i' < length title \<longrightarrow> ESC_SIZE - 1 < length (spec_escape (take (Suc i') title))))"

text \<open>
  \<open>file_written p w w'\<close>: from \<open>w\<close> to \<open>w'\<close>, in every state passed through, only
  the content of the file \<open>p\<close> has changed: the directories and the names of the files
  are those of \<open>w\<close>, and so is every other file. \<open>names_kept w w'\<close> keeps only the
  names of the files.
\<close>

definition file_written :: "path \<Rightarrow> world \<Rightarrow> world \<Rightarrow> bool" where
  "file_written p w w' =
     (dirs w' = dirs w \<and> dom (files w') = dom (files w) \<and> (\<forall>q. q \<noteq> p \<longrightarrow> files w' q = files w q) \<and>
      (\<forall>s \<in> set (fs_states w'). s \<in> set (fs_states w) \<or>
          (snd s = dirs w \<and> dom (fst s) = dom (files w) \<and> (\<forall>q. q \<noteq> p \<longrightarrow> fst s q = files w q))))"

definition names_kept :: "world \<Rightarrow> world \<Rightarrow> bool" where
  "names_kept w w' =
     (dom (files w') = dom (files w) \<and>
      (\<forall>s \<in> set (fs_states w'). s \<in> set (fs_states w) \<or> dom (fst s) = dom (files w)))"

text \<open>
  What makes the loops end: every \<^verbatim>\<open>write\<close> that takes no byte is followed, some calls
  later, by one that takes some or fails; and some \<^verbatim>\<open>read\<close> of the input delivers nothing.
\<close>

definition writes_progress :: "(nat \<Rightarrow> int) \<Rightarrow> bool" where
  "writes_progress wr = (\<forall>j. \<exists>j'\<ge>j. wr j' \<noteq> 0)"

definition input_ends :: "(nat \<Rightarrow> string option) \<Rightarrow> bool" where
  "input_ends rd = (\<exists>k. fst (sys_read (rd k) 8192) \<le> 0)"

text \<open>
  \<open>only_file p w w'\<close>: from \<open>w\<close> to \<open>w'\<close>, in every state passed through, the
  directories are those of \<open>w\<close> and so is every file but \<open>p\<close>, which may have been
  created or written.
\<close>

definition only_file :: "path \<Rightarrow> world \<Rightarrow> world \<Rightarrow> bool" where
  "only_file p w w' =
     (dirs w' = dirs w \<and> (\<forall>q. q \<noteq> p \<longrightarrow> files w' q = files w q) \<and>
      (\<forall>s \<in> set (fs_states w'). s \<in> set (fs_states w) \<or>
          (snd s = dirs w \<and> (\<forall>q. q \<noteq> p \<longrightarrow> fst s q = files w q))))"

section \<open>Example inputs\<close>

text \<open>
  An empty file system, and an operating system where every call succeeds: the job's
  input comes in two reads, the first \<^verbatim>\<open>write\<close> of the capture takes two bytes and the
  second none, the user \<open>alice\<close> is known.
\<close>

definition ex_world :: world where
  "ex_world = \<lparr>files = Map.empty, dirs = Map.empty, errno = E0, past = [], stderr = []\<rparr>"

definition ex_os :: os where
  "ex_os = \<lparr>getenv_TMPDIR = Some ''/t'', mkstemp_name = Some ''Ab12cd'', proc_owner = (0, 0),
     umask = 18, open_input_ok = True,
     read_input = (\<lambda>k. if k = 0 then Some ''%PDF-'' else if k = 1 then Some ''1.4'' else Some []),
     write_temp = (\<lambda>j. if j = 0 then 2 else if j = 1 then 0 else 8192),
     sniff_open_ok = (\<lambda>k. True), sniff_read_ok = (\<lambda>k. True),
     getpwnam = (\<lambda>u. if u = ''alice''
                      then Some \<lparr>pw_uid = 501, pw_gid = 20, pw_dir = Some ''/Users/alice''\<rparr>
                      else None),
     mkdir_ok = (\<lambda>p. True), chmod_ok = (\<lambda>p. True), chown_ok = (\<lambda>p. True),
     time_now = 7, rename_ok = True, copy_open_src_ok = True, copy_open_dst_ok = True,
     copy_read_ok = (\<lambda>k. True), copy_write = (\<lambda>j. 8192), unlink_ok = True, fopen_ok = True,
     stdio_written = None\<rparr>"

definition ex_argv :: "string \<Rightarrow> string list" where
  "ex_argv job_id = [''onenote'', job_id, ''alice'', ''Report'', ''1'', [] ]"

definition ex_file :: "string \<Rightarrow> inode" where
  "ex_file bs = \<lparr>owner = (0, 0), perm = 384, bytes = bs\<rparr>"

definition ex_temp_world :: "string \<Rightarrow> world" where
  "ex_temp_world bs = ex_world\<lparr>files := [''/t/onenote-print-Ab12cd'' \<mapsto> ex_file bs]\<rparr>"


definition ex_argv_bob :: "string list" where
  "ex_argv_bob = [''onenote'', ''101'', ''bob'', ''Report'', ''1'', [], ''/in.pdf'']"

definition ex_os_copy_fails :: os where
  "ex_os_copy_fails = ex_os\<lparr>rename_ok := False, copy_write := (\<lambda>j. if j = 0 then 3 else - 1)\<rparr>"

definition run_summary ::
  "path \<Rightarrow> (backend_status \<times> world) option \<Rightarrow> (backend_status \<times> string option \<times> diag list) option" where
  "run_summary p r = map_option (\<lambda>(st, w). (st, map_option bytes (files w p), stderr w)) r"

section \<open>Title escaping\<close>

lemma spec_unescape_char:
  "spec_unescape (spec_escape_char c @ zs) = map_option ((#) c) (spec_unescape zs)"
  by (cases zs) (auto simp: spec_escape_char_def dq_def bsl_def nl_def cr_def tab_def)

lemma spec_unescape_escape: "spec_unescape (spec_escape s) = Some s"
  by (induction s) (simp_all add: spec_escape_def spec_unescape_char)

lemma spec_escape_snoc:
  "i < length title \<Longrightarrow>
   spec_escape (take (Suc i) title) = spec_escape (take i title) @ spec_escape_char (title ! i)"
  by (simp add: spec_escape_def take_Suc_conv_app_nth)

lemma length_spec_escape_char: "length (spec_escape_char c) = (if c = dq \<or> c = bsl \<or> c = nl \<or> c = cr \<or> c = tab then 2 else 1)"
  by (simp add: spec_escape_char_def)

lemma esc_post_step: "esc_post title (i + 1) res \<Longrightarrow> esc_post title i res"
  by (auto simp: esc_post_def)

lemma esc_loop_inv:
  "esc = spec_escape (take i title) \<Longrightarrow> i \<le> length title \<Longrightarrow>
   length esc \<le> ESC_SIZE - 1 \<Longrightarrow> esc_post title i (esc_loop title i esc)"
proof (induction title i esc rule: esc_loop.induct)
  case (1 title i escTitle)
  note IH = "1.IH" and pre = "1.prems"
  show ?case
  proof (cases "i < length title \<and> length escTitle < ESC_SIZE - 1")
    case False
    have "esc_loop title i escTitle = (i, escTitle)"
      by (subst esc_loop.simps) (simp only: False if_False)
    then show ?thesis using pre False
      by (auto simp: esc_post_def spec_escape_snoc length_spec_escape_char)
  next
    case go: True
    define c where "c = title ! i"
    have c: "c = title ! i" by (simp add: c_def)
    have snoc: "spec_escape (take (Suc i) title) = escTitle @ spec_escape_char c"
      using go pre by (simp add: spec_escape_snoc c_def)
    consider (q) "c = dq \<or> c = bsl" | (n) "\<not> (c = dq \<or> c = bsl)" "c = nl \<or> c = cr \<or> c = tab"
      | (p) "\<not> (c = dq \<or> c = bsl)" "\<not> (c = nl \<or> c = cr \<or> c = tab)" by blast
    then show ?thesis
    proof cases
      case q
      show ?thesis
      proof (cases "length escTitle + 2 \<ge> ESC_SIZE")
        case True
        then have "esc_loop title i escTitle = (i, escTitle)"
          using go q by (subst esc_loop.simps) (simp add: c[symmetric])
        then show ?thesis using go q pre snoc True
          by (auto simp: esc_post_def length_spec_escape_char)
      next
        case False
        have e: "escTitle @ [bsl, c] = spec_escape (take (i + 1) title)"
          using snoc q by (auto simp: spec_escape_char_def)
        have "esc_post title (i + 1) (esc_loop title (i + 1) (escTitle @ [bsl, c]))"
          using go False by (intro IH(1)[OF go c q _ e]) auto
        moreover have "esc_loop title i escTitle = esc_loop title (i + 1) (escTitle @ [bsl, c])"
          using go q False by (subst esc_loop.simps) (simp add: c[symmetric])
        ultimately show ?thesis using esc_post_step[of title i] by simp
      qed
    next
      case n
      show ?thesis
      proof (cases "length escTitle + 2 \<ge> ESC_SIZE")
        case True
        then have "esc_loop title i escTitle = (i, escTitle)"
          using go n by (subst esc_loop.simps) (simp add: c[symmetric])
        then show ?thesis using go n pre snoc True
          by (auto simp: esc_post_def length_spec_escape_char)
      next
        case False
        let ?e = "escTitle @ [bsl, if c = nl then CHR ''n'' else if c = cr then CHR ''r'' else CHR ''t'']"
        have e: "?e = spec_escape (take (i + 1) title)"
          using snoc n by (auto simp: spec_escape_char_def)
        have "esc_post title (i + 1) (esc_loop title (i + 1) ?e)"
          using go False by (intro IH(2)[OF go c n(1) n(2) _ e]) auto
        moreover have "esc_loop title i escTitle = esc_loop title (i + 1) ?e"
          using go n False by (subst esc_loop.simps) (simp add: c[symmetric])
        ultimately show ?thesis using esc_post_step[of title i] by simp
      qed
    next
      case p
      have e: "escTitle @ [c] = spec_escape (take (i + 1) title)"
        using snoc p by (auto simp: spec_escape_char_def)
      have "esc_post title (i + 1) (esc_loop title (i + 1) (escTitle @ [c]))"
        using go by (intro IH(3)[OF go c p(1) p(2) e]) auto
      moreover have "esc_loop title i escTitle = esc_loop title (i + 1) (escTitle @ [c])"
        using go p by (subst esc_loop.simps) (simp add: c[symmetric])
      ultimately show ?thesis using esc_post_step[of title i] by simp
    qed
  qed
qed


text \<open>
  C4. For every title, the escaped title is the escaping, by the rule of the specification,
  of the first \<open>escaped_count title\<close> bytes of the title, and unescaping it gives these
  bytes back: it is validly escaped, no escape sequence is cut. It fits the buffer of
  2048 bytes with its terminating NUL, and it stops before the end of the title only
  when the next byte, escaped, would no longer fit.
\<close>

theorem escape_title_roundtrip:
  "spec_unescape (escape_title title) = Some (take (escaped_count title) title)
   \<and> escape_title title = spec_escape (take (escaped_count title) title)
   \<and> escaped_count title \<le> length title
   \<and> length (escape_title title) \<le> ESC_SIZE - 1
   \<and> (escaped_count title < length title \<longrightarrow>
        ESC_SIZE - 1 < length (spec_escape (take (Suc (escaped_count title)) title)))"
proof -
  obtain i r where ir: "esc_loop title 0 [] = (i, r)"
    by (cases "esc_loop title 0 []")
  have "esc_post title 0 (esc_loop title 0 [])"
    by (rule esc_loop_inv) (simp_all add: spec_escape_def)
  then have p: "r = spec_escape (take i title)" "i \<le> length title" "length r \<le> ESC_SIZE - 1"
      "i < length title \<longrightarrow> ESC_SIZE - 1 < length (spec_escape (take (Suc i) title))"
    by (auto simp: esc_post_def ir)
  have u: "spec_unescape r = Some (take i title)"
    by (simp add: p(1) spec_unescape_escape)
  show ?thesis
    using p u by (simp add: escape_title_def escaped_count_def ir)
qed

lemma spec_escape_plain:
  "spec_escape (replicate m (CHR ''a'')) = replicate m (CHR ''a'')"
  by (induction m) (simp_all add: spec_escape_def spec_escape_char_def dq_def bsl_def nl_def
                                  cr_def tab_def)

theorem escape_title_roundtrip_witness:
  "escaped_count (replicate 2100 (CHR ''a'')) < length (replicate 2100 (CHR ''a''))
   \<and> ESC_SIZE - 1 < length (spec_escape (take (Suc (escaped_count (replicate 2100 (CHR ''a''))))
                                            (replicate 2100 (CHR ''a''))))
   \<and> spec_unescape (escape_title (replicate 2100 (CHR ''a'')))
       = Some (take (escaped_count (replicate 2100 (CHR ''a''))) (replicate 2100 (CHR ''a'')))"
proof -
  let ?t = "replicate 2100 (CHR ''a'')"
  note r = escape_title_roundtrip[of ?t]
  from r have "length (escape_title ?t) \<le> ESC_SIZE - 1"
    and "escape_title ?t = spec_escape (take (escaped_count ?t) ?t)"
    by blast+
  then have "length (spec_escape (take (escaped_count ?t) ?t)) \<le> ESC_SIZE - 1"
    by metis
  then have "escaped_count ?t < length ?t"
    by (simp add: spec_escape_plain ESC_SIZE_def)
  then show ?thesis using r by blast
qed

section \<open>Queue names\<close>


lemma length_baseName: "length (baseName job_id now) \<le> 255"
  by (simp add: baseName_def snprintf_def)

lemma destDoc_fits:
  "298 \<le> PATH_MAX \<Longrightarrow> ext = ''ps'' \<or> ext = ''pdf'' \<Longrightarrow>
   destDoc PATH_MAX job_id now ext = incomingDir @ ''/'' @ baseName job_id now @ ''.'' @ ext"
  using length_baseName[of job_id now]
  by (auto simp: destDoc_def snprintf_def incomingDir_def)

lemma destJson_fits:
  "298 \<le> PATH_MAX \<Longrightarrow>
   destJson PATH_MAX job_id now = incomingDir @ ''/'' @ baseName job_id now @ ''.json''"
  using length_baseName[of job_id now]
  by (auto simp: destJson_def snprintf_def incomingDir_def)

lemma suffix_last_neq: "last (s # u) \<noteq> last (s' # u') \<Longrightarrow> xs @ s # u \<noteq> ys @ s' # u'"
  by (metis last_appendR list.distinct(1))



section \<open>The file system: basic facts\<close>

lemma fs_update_simps [simp]:
  "files (fs_update f d w) = f" "dirs (fs_update f d w) = d"
  "errno (fs_update f d w) = errno w" "stderr (fs_update f d w) = stderr w"
  "past (fs_update f d w) = (files w, dirs w) # past w"
  "fs_states (fs_update f d w) = (f, d) # fs_states w"
  by (simp_all add: fs_update_def fs_states_def)

lemma fprintf_stderr_simps [simp]:
  "files (fprintf_stderr m w) = files w" "dirs (fprintf_stderr m w) = dirs w"
  "errno (fprintf_stderr m w) = errno w" "past (fprintf_stderr m w) = past w"
  "fs_states (fprintf_stderr m w) = fs_states w"
  by (simp_all add: fprintf_stderr_def fs_states_def)

lemma fs_states_errno [simp]: "fs_states (w\<lparr>errno := x\<rparr>) = fs_states w"
  by (simp add: fs_states_def)

lemma file_bytes_simps [simp]:
  "file_bytes (fs_update f d w) p = (case f p of None \<Rightarrow> [] | Some ino \<Rightarrow> bytes ino)"
  "file_bytes (fprintf_stderr m w) p = file_bytes w p"
  by (simp_all add: file_bytes_def)

lemma append_file_files:
  "files (append_file p bs w) =
     (case files w p of None \<Rightarrow> files w
      | Some ino \<Rightarrow> (files w)(p \<mapsto> ino\<lparr>bytes := bytes ino @ bs\<rparr>))"
  by (simp add: append_file_def split: option.split)

lemma append_file_bytes:
  "files w p \<noteq> None \<Longrightarrow> file_bytes (append_file p bs w) p = file_bytes w p @ bs"
  by (auto simp: append_file_def file_bytes_def)

lemma append_file_exists: "(files (append_file p bs w) q = None) = (files w q = None)"
  by (auto simp: append_file_def split: option.split)


lemma write_loop_bytes:
  assumes "write_loop wr p buf n off j tw w = Some y"
  shows "files w p \<noteq> None \<longrightarrow> 0 \<le> off \<longrightarrow> off \<le> n \<longrightarrow> n = int (length buf) \<longrightarrow>
   (case y of (ok, j', tw', w') \<Rightarrow>
      files w' p \<noteq> None \<and>
      (\<exists>m\<le>nat (n - off). file_bytes w' p = file_bytes w p @ take m (drop (nat off) buf)
          \<and> tw' = tw + of_nat m \<and> (ok \<longrightarrow> m = nat (n - off))))"
  using assms
proof (induction rule: write_loop.raw_induct[rotated 1, consumes 1])
  case (1 loop wr p buf n off j tw w y)
  note IH = "1.IH" and eq = "1.hyps"
  show ?case
  proof (intro impI)
    assume ex: "files w p \<noteq> None" and o0: "0 \<le> off" and on: "off \<le> n"
      and nb: "n = int (length buf)"
    show "case y of (ok, j', tw', w') \<Rightarrow>
      files w' p \<noteq> None \<and>
      (\<exists>m\<le>nat (n - off). file_bytes w' p = file_bytes w p @ take m (drop (nat off) buf)
          \<and> tw' = tw + of_nat m \<and> (ok \<longrightarrow> m = nat (n - off)))"
    proof (cases "off < n")
      case False
      then have "y = (True, j, tw, w)" using eq by simp
      then show ?thesis using ex on False by (auto intro!: exI[of _ 0])
    next
      case lt: True
      define wn where "wn = sys_write (wr j) (n - off)"
      show ?thesis
      proof (cases "wn < 0")
        case True
        then have "y = (False, Suc j, tw, w)" using eq lt by (simp add: wn_def Let_def)
        then show ?thesis using ex by (auto intro!: exI[of _ 0])
      next
        case False
        let ?w1 = "append_file p (take (nat wn) (drop (nat off) buf)) w"
        have wn: "0 \<le> wn" "wn \<le> n - off"
          using False lt by (auto simp: wn_def sys_write_def split: if_splits)
        have rec: "loop wr p buf n (off + wn) (Suc j) (tw + word_of_int wn) ?w1 = Some y"
          using eq lt False by (simp add: wn_def Let_def)
        have ex1: "files ?w1 p \<noteq> None" using ex by (simp add: append_file_exists)
        obtain ok j' tw' w' where y: "y = (ok, j', tw', w')" by (cases y)
        from IH[OF rec] ex1 wn o0 nb y
        obtain m where m: "files w' p \<noteq> None" "m \<le> nat (n - (off + wn))"
            "file_bytes w' p = file_bytes ?w1 p @ take m (drop (nat (off + wn)) buf)"
            "tw' = tw + word_of_int wn + of_nat m" "ok \<longrightarrow> m = nat (n - (off + wn))"
          by auto
        have b1: "file_bytes ?w1 p = file_bytes w p @ take (nat wn) (drop (nat off) buf)"
          using ex by (rule append_file_bytes)
        have dd: "drop (nat (off + wn)) buf = drop (nat wn) (drop (nat off) buf)"
          using wn o0 by (simp add: nat_add_distrib add.commute)
        have "take (nat wn) (drop (nat off) buf) @ take m (drop (nat (off + wn)) buf)
              = take (nat wn + m) (drop (nat off) buf)"
          by (simp only: dd take_add)
        then have b: "file_bytes w' p = file_bytes w p @ take (nat wn + m) (drop (nat off) buf)"
          using m(3) b1 by simp
        have t: "tw' = tw + of_nat (nat wn + m)"
          using m(4) wn by simp
        have le: "nat wn + m \<le> nat (n - off)" using m(2) wn by linarith
        have fin: "ok \<longrightarrow> nat wn + m = nat (n - off)" using m(5) wn by auto
        have "\<exists>m'\<le>nat (n - off). file_bytes w' p = file_bytes w p @ take m' (drop (nat off) buf)
                \<and> tw' = tw + of_nat m' \<and> (ok \<longrightarrow> m' = nat (n - off))"
          using b t le fin by blast
        then show ?thesis using m(1) by (simp add: y)
      qed
    qed
  qed
qed


section \<open>Capture\<close>

lemma sys_read_length: "length (snd (sys_read r c)) = nat (fst (sys_read r c))"
  by (simp add: sys_read_def split: option.split)

lemma sys_read_fst: "fst (sys_read r c) = (if r = None then - 1 else int (length (snd (sys_read r c))))"
  by (simp add: sys_read_def split: option.split)

lemma capture_loop_bytes:
  assumes "capture_loop rd wr tp k j tw w = Some y"
  shows "files w tp \<noteq> None \<longrightarrow>
   (case y of (fin, k', tw', w') \<Rightarrow>
      files w' tp \<noteq> None \<and> k \<le> k' \<and>
      (\<forall>n. fin = ReadEnd n \<longrightarrow>
         file_bytes w' tp = file_bytes w tp @ concat (map (\<lambda>i. snd (sys_read (rd i) 8192)) [k..<k'])
         \<and> tw' = tw + of_nat (length (concat (map (\<lambda>i. snd (sys_read (rd i) 8192)) [k..<k'])))
         \<and> n = fst (sys_read (rd k') 8192) \<and> n \<le> 0
         \<and> (\<forall>i. k \<le> i \<and> i < k' \<longrightarrow> 0 < fst (sys_read (rd i) 8192))))"
  using assms
proof (induction rule: capture_loop.raw_induct[rotated 1, consumes 1])
  case (1 loop rd wr tp k j tw w y)
  note IH = "1.IH" and eq = "1.hyps"
  let ?chunk = "\<lambda>i. snd (sys_read (rd i) 8192)"
  obtain n buffer where rd: "sys_read (rd k) 8192 = (n, buffer)"
    by (cases "sys_read (rd k) 8192")
  have nb: "n = (if rd k = None then - 1 else int (length buffer))"
    using rd by (auto simp: sys_read_def split: option.splits)
  show ?case
  proof (intro impI)
    assume ex: "files w tp \<noteq> None"
    show "case y of (fin, k', tw', w') \<Rightarrow>
      files w' tp \<noteq> None \<and> k \<le> k' \<and>
      (\<forall>n. fin = ReadEnd n \<longrightarrow>
         file_bytes w' tp = file_bytes w tp @ concat (map ?chunk [k..<k'])
         \<and> tw' = tw + of_nat (length (concat (map ?chunk [k..<k'])))
         \<and> n = fst (sys_read (rd k') 8192) \<and> n \<le> 0
         \<and> (\<forall>i. k \<le> i \<and> i < k' \<longrightarrow> 0 < fst (sys_read (rd i) 8192)))"
    proof (cases "0 < n")
      case False
      then have "y = (ReadEnd n, k, tw, w)" using eq rd by simp
      then show ?thesis using ex False rd by simp
    next
      case pos: True
      then have nlen: "n = int (length buffer)" using nb by (simp split: if_splits)
      obtain ok j1 tw1 w1 where wl: "write_loop wr tp buffer n 0 j tw w = Some (ok, j1, tw1, w1)"
        using eq rd pos by (cases "write_loop wr tp buffer n 0 j tw w") auto
      from write_loop_bytes[OF wl] ex nlen pos
      obtain m where m: "files w1 tp \<noteq> None" "file_bytes w1 tp = file_bytes w tp @ take m buffer"
          "tw1 = tw + of_nat m" "ok \<longrightarrow> m = length buffer"
        by auto
      show ?thesis
      proof (cases ok)
        case False
        then have "y = (WriteError, k, tw1, w1)" using eq rd pos wl by simp
        then show ?thesis using m(1) by simp
      next
        case True
        then have rec: "loop rd wr tp (Suc k) j1 tw1 w1 = Some y" using eq rd pos wl by simp
        obtain fin k' tw' w' where y: "y = (fin, k', tw', w')" by (cases y)
        from IH[OF rec] m(1) y
        have r: "files w' tp \<noteq> None" "Suc k \<le> k'"
          "\<And>n. fin = ReadEnd n \<Longrightarrow>
             file_bytes w' tp = file_bytes w1 tp @ concat (map ?chunk [Suc k..<k'])
             \<and> tw' = tw1 + of_nat (length (concat (map ?chunk [Suc k..<k'])))
             \<and> n = fst (sys_read (rd k') 8192) \<and> n \<le> 0
             \<and> (\<forall>i. Suc k \<le> i \<and> i < k' \<longrightarrow> 0 < fst (sys_read (rd i) 8192))"
          by auto
        have up: "[k..<k'] = k # [Suc k..<k']" using r(2) by (simp add: upt_conv_Cons)
        have ck: "?chunk k = buffer" using rd by simp
        have w1b: "file_bytes w1 tp = file_bytes w tp @ buffer" "tw1 = tw + of_nat (length buffer)"
          using m True by auto
        have A: "files w' tp \<noteq> None \<and> k \<le> k'" using r(1,2) by simp
        have B: "file_bytes w' tp = file_bytes w tp @ concat (map ?chunk [k..<k'])
             \<and> tw' = tw + of_nat (length (concat (map ?chunk [k..<k'])))
             \<and> n' = fst (sys_read (rd k') 8192) \<and> n' \<le> 0
             \<and> (\<forall>i. k \<le> i \<and> i < k' \<longrightarrow> 0 < fst (sys_read (rd i) 8192))"
          if "fin = ReadEnd n'" for n'
        proof -
          have "0 < fst (sys_read (rd i) 8192)" if "k \<le> i" "i < k'" for i
          proof (cases "i = k")
            case True
            then show ?thesis using rd pos by simp
          next
            case False
            then show ?thesis using r(3)[OF \<open>fin = ReadEnd n'\<close>] that by simp
          qed
          then show ?thesis using r(3)[OF that] w1b by (simp add: up ck)
        qed
        show ?thesis unfolding y prod.case using A B by blast
      qed
    qed
  qed
qed

section \<open>Argument count\<close>

text \<open>
  C6. With no argument (\<open>argc = 1\<close>) main reports success and leaves the world as it is.
  With an argument count other than 0, 5 or 6 it reports failure, and the file system
  (files, directories, and its history) is as before; only a diagnostic is written.
\<close>

theorem main_usage:
  "(length argv = 1 \<longrightarrow> main PATH_MAX argv e w = Some (CUPS_BACKEND_OK, w)) \<and>
   (length argv \<noteq> 1 \<and> length argv \<noteq> 6 \<and> length argv \<noteq> 7 \<longrightarrow>
      (\<exists>w'. main PATH_MAX argv e w = Some (CUPS_BACKEND_FAILED, w')
            \<and> files w' = files w \<and> dirs w' = dirs w \<and> past w' = past w))"
  by (simp add: main_def Let_def)

theorem main_usage_witness:
  "length [''onenote''] = 1
   \<and> main 1024 [''onenote''] ex_os ex_world = Some (CUPS_BACKEND_OK, ex_world)
   \<and> length [''onenote'', ''1'', ''alice''] \<noteq> 1 \<and> length [''onenote'', ''1'', ''alice''] \<noteq> 6
   \<and> length [''onenote'', ''1'', ''alice''] \<noteq> 7
   \<and> (\<exists>w'. main 1024 [''onenote'', ''1'', ''alice''] ex_os ex_world = Some (CUPS_BACKEND_FAILED, w')
            \<and> files w' = files ex_world \<and> dirs w' = dirs ex_world \<and> past w' = past ex_world)"
  using main_usage[of "[''onenote'']" 1024 ex_os ex_world]
        main_usage[of "[''onenote'', ''1'', ''alice'']" 1024 ex_os ex_world]
  by simp

section \<open>Format sniffing\<close>

lemma file_starts_with_iff:
  assumes "prefix \<noteq> []" and "length prefix \<le> 16"
  shows "file_starts_with e k p prefix w =
           (files w p \<noteq> None \<and> sniff_open_ok e k \<and> sniff_read_ok e k
            \<and> take (length prefix) (file_bytes w p) = prefix)"
proof -
  let ?bs = "file_bytes w p"
  have short: "take (length prefix) ?bs \<noteq> prefix" if "length (take 16 ?bs) < length prefix"
  proof
    assume "take (length prefix) ?bs = prefix"
    then have "length (take (length prefix) ?bs) = length prefix" by simp
    then show False using that assms(2) by (simp add: min_def split: if_splits)
  qed
  have tt: "take (length prefix) (take 16 ?bs) = take (length prefix) ?bs"
    using assms(2) by (simp add: min_absorb1)
  show ?thesis
    using assms(1) short tt
    by (auto simp: file_starts_with_def sys_read_file_def Let_def)
qed

text \<open>
  C3. The extension is \<open>ps\<close> exactly when the captured file exists, the first call of
  file_starts_with can open and read it, and its first four bytes are \<open>%!PS\<close>. In every
  other case (the bytes \<open>%PDF\<close>, any other content, fewer than four bytes, an empty
  file, a failed open or read) it is \<open>pdf\<close>.
\<close>

theorem sniff_ext_classifies:
  "fst (sniff_ext e tp w) =
     (if files w tp \<noteq> None \<and> sniff_open_ok e 0 \<and> sniff_read_ok e 0
         \<and> take 4 (file_bytes w tp) = ''%!PS''
      then ''ps'' else ''pdf'')"
proof -
  have l: "length ''%!PS'' = 4" by simp
  have "file_starts_with e 0 tp ''%!PS'' w =
          (files w tp \<noteq> None \<and> sniff_open_ok e 0 \<and> sniff_read_ok e 0
           \<and> take 4 (file_bytes w tp) = ''%!PS'')"
    using file_starts_with_iff[of "''%!PS''" e 0 tp w] unfolding l by simp
  then show ?thesis
    by (simp add: sniff_ext_def)
qed

theorem sniff_ext_classifies_witness:
  "fst (sniff_ext ex_os ''/t/onenote-print-Ab12cd'' (ex_temp_world ''%!PS-Adobe-3.0'')) = ''ps''
   \<and> fst (sniff_ext ex_os ''/t/onenote-print-Ab12cd'' (ex_temp_world ''%PDF-1.4'')) = ''pdf''
   \<and> fst (sniff_ext ex_os ''/t/onenote-print-Ab12cd'' (ex_temp_world [])) = ''pdf''
   \<and> fst (sniff_ext (ex_os\<lparr>sniff_read_ok := \<lambda>k. False\<rparr>) ''/t/onenote-print-Ab12cd''
            (ex_temp_world ''%!PS-Adobe-3.0'')) = ''pdf''"
  using sniff_ext_classifies[of ex_os "''/t/onenote-print-Ab12cd''" "ex_temp_world ''%!PS-Adobe-3.0''"]
        sniff_ext_classifies[of ex_os "''/t/onenote-print-Ab12cd''" "ex_temp_world ''%PDF-1.4''"]
        sniff_ext_classifies[of ex_os "''/t/onenote-print-Ab12cd''" "ex_temp_world []"]
        sniff_ext_classifies[of "ex_os\<lparr>sniff_read_ok := \<lambda>k. False\<rparr>" "''/t/onenote-print-Ab12cd''"
           "ex_temp_world ''%!PS-Adobe-3.0''"]
  by (simp add: ex_os_def ex_temp_world_def ex_world_def ex_file_def file_bytes_def)

text \<open>
  C2. When the capture loop of main ends with the result \<open>n\<close> of a read, after \<open>k\<close>
  reads, then these \<open>k\<close> reads are all the reads of the input before its first one
  that delivers nothing: each of them delivered bytes, and the read after them is the
  first with a result \<open>n \<le> 0\<close>. The temp file has grown by exactly the bytes these
  reads delivered, in the order read, each once; the number of bytes written is the
  sum of the results of the reads, and \<^verbatim>\<open>total_written\<close> is that number (as a 64-bit
  value).
\<close>

theorem capture_writes_what_it_reads:
  assumes "capture_loop rd wr tp 0 0 0 w = Some (ReadEnd n, k, tw, w')"
    and "files w tp \<noteq> None"
  shows "(\<forall>i<k. 0 < fst (sys_read (rd i) 8192))
       \<and> n = fst (sys_read (rd k) 8192) \<and> n \<le> 0
       \<and> file_bytes w' tp = file_bytes w tp @ concat (map (\<lambda>i. snd (sys_read (rd i) 8192)) [0..<k])
       \<and> length (file_bytes w' tp) - length (file_bytes w tp)
           = (\<Sum>i\<leftarrow>[0..<k]. nat (fst (sys_read (rd i) 8192)))
       \<and> tw = of_nat (\<Sum>i\<leftarrow>[0..<k]. nat (fst (sys_read (rd i) 8192)))"
proof -
  let ?chunk = "\<lambda>i. snd (sys_read (rd i) 8192)"
  from capture_loop_bytes[OF assms(1)] assms(2)
  have b: "file_bytes w' tp = file_bytes w tp @ concat (map ?chunk [0..<k])"
    and t: "tw = of_nat (length (concat (map ?chunk [0..<k])))"
    and e: "n = fst (sys_read (rd k) 8192)" "n \<le> 0"
    and d: "\<forall>i<k. 0 < fst (sys_read (rd i) 8192)"
    by auto
  have l: "length (concat (map ?chunk [0..<k])) = (\<Sum>i\<leftarrow>[0..<k]. nat (fst (sys_read (rd i) 8192)))"
    by (simp add: length_concat comp_def sys_read_length)
  show ?thesis using b t l e d by simp
qed

theorem capture_writes_what_it_reads_witness:
  "\<exists>w'. capture_loop (read_input ex_os) (write_temp ex_os) ''/t/onenote-print-Ab12cd'' 0 0 0
           (ex_temp_world []) = Some (ReadEnd 0, 2, 8, w')
        \<and> files (ex_temp_world []) ''/t/onenote-print-Ab12cd'' \<noteq> None
        \<and> file_bytes w' ''/t/onenote-print-Ab12cd'' = ''%PDF-1.4''
        \<and> fst (sys_read (read_input ex_os 2) 8192) = 0
        \<and> (\<forall>i<2. 0 < fst (sys_read (read_input ex_os i) 8192))"
proof -
  let ?r = "capture_loop (read_input ex_os) (write_temp ex_os) ''/t/onenote-print-Ab12cd'' 0 0 0
              (ex_temp_world [])"
  have "map_option (\<lambda>(a, k, tw, w). (a, k, tw)) ?r = Some (ReadEnd 0, 2, 8)"
    by code_simp
  then obtain w' where r: "?r = Some (ReadEnd 0, 2, 8, w')"
    by (cases ?r) auto
  have ex: "files (ex_temp_world []) ''/t/onenote-print-Ab12cd'' \<noteq> None"
    by (simp add: ex_temp_world_def)
  note c = capture_writes_what_it_reads[OF r ex]
  have "file_bytes w' ''/t/onenote-print-Ab12cd'' = ''%PDF-1.4''"
    using c
    by (simp add: ex_os_def ex_temp_world_def ex_file_def file_bytes_def sys_read_def upt_rec)
  moreover have "fst (sys_read (read_input ex_os 2) 8192) = 0"
    "\<forall>i<2. 0 < fst (sys_read (read_input ex_os i) 8192)"
    using c by simp_all
  ultimately show ?thesis using r ex by blast
qed

section \<open>The branches of main\<close>

lemma main_job_cases:
  assumes "main PATH_MAX argv e w = Some (r, w')" and "length argv = 6 \<or> length argv = 7"
  obtains
    (temp_failed) "mkstemp e (templatePath e) w = None" "r = CUPS_BACKEND_FAILED"
      "w' = fprintf_stderr (TempCreateFailed (templatePath e)) w"
  | (open_failed) tp w1 where "mkstemp e (templatePath e) w = Some (tp, w1)"
      "r = CUPS_BACKEND_FAILED" "\<exists>m. w' = fprintf_stderr m w1"
  | (write_failed) tp w1 k tw w2 where "mkstemp e (templatePath e) w = Some (tp, w1)"
      "capture_loop (read_input e) (write_temp e) tp 0 0 0 w1 = Some (WriteError, k, tw, w2)"
      "r = CUPS_BACKEND_FAILED" "w' = fprintf_stderr WriteTempFailed w2"
  | (read_failed) tp w1 n k tw w2 where "mkstemp e (templatePath e) w = Some (tp, w1)"
      "capture_loop (read_input e) (write_temp e) tp 0 0 0 w1 = Some (ReadEnd n, k, tw, w2)"
      "n < 0" "r = CUPS_BACKEND_FAILED" "w' = fprintf_stderr ReadInputFailed w2"
  | (queue) tp w1 n k tw w2 where "mkstemp e (templatePath e) w = Some (tp, w1)"
      "capture_loop (read_input e) (write_temp e) tp 0 0 0 w1 = Some (ReadEnd n, k, tw, w2)"
      "\<not> n < 0"
      "queue_job PATH_MAX e (argv ! 1) (argv ! 2) (argv ! 3) tp
         (fprintf_stderr (WroteBytes tw tp) w2) = Some (r, w')"
proof -
  have argc: "length argv \<noteq> 1" "\<not> (length argv \<noteq> 6 \<and> length argv \<noteq> 7)"
    using assms(2) by auto
  show ?thesis
  proof (cases "mkstemp e (templatePath e) w")
    case None
    then show ?thesis using assms(1) argc temp_failed by (simp add: main_def Let_def)
  next
    case (Some a)
    obtain tp w1 where a: "a = (tp, w1)" by (cases a)
    note mk = Some[unfolded a]
    show ?thesis
    proof (cases "(if length argv = 7 then argv ! 6 else []) \<noteq> [] \<and> \<not> open_input_ok e")
      case True
      then have "r = CUPS_BACKEND_FAILED \<and> (\<exists>m. w' = fprintf_stderr m w1)"
        using assms(1) argc mk by (auto simp: main_def Let_def split: if_splits)
      then show ?thesis using open_failed[OF mk] by blast
    next
      case False
      let ?c = "capture_loop (read_input e) (write_temp e) tp 0 0 0 w1"
      have m: "(case ?c of None \<Rightarrow> None
                | Some (WriteError, k, tw, w2) \<Rightarrow>
                    Some (CUPS_BACKEND_FAILED, fprintf_stderr WriteTempFailed w2)
                | Some (ReadEnd n, k, tw, w2) \<Rightarrow>
                    if n < 0 then Some (CUPS_BACKEND_FAILED, fprintf_stderr ReadInputFailed w2)
                    else queue_job PATH_MAX e (argv ! 1) (argv ! 2) (argv ! 3) tp
                           (fprintf_stderr (WroteBytes tw tp) w2)) = Some (r, w')"
        using assms(1) argc mk False by (simp add: main_def Let_def del: One_nat_def)
      then obtain fin k tw w2 where c: "?c = Some (fin, k, tw, w2)"
        by (cases ?c) auto
      show ?thesis
      proof (cases fin)
        case WriteError
        then show ?thesis using m c write_failed[OF mk] by simp
      next
        case (ReadEnd n)
        show ?thesis
        proof (cases "n < 0")
          case True
          then show ?thesis using m c ReadEnd read_failed[OF mk] by simp
        next
          case False
          then show ?thesis using m c ReadEnd queue[OF mk] by simp
        qed
      qed
    qed
  qed
qed

lemma queue_job_cases:
  assumes "queue_job PATH_MAX e job_id user title tp w = Some (r, w')"
  obtains
    (no_user) "getpwnam e user = None \<or> (\<exists>pw. getpwnam e user = Some pw \<and> pw_dir pw = None)"
      "r = CUPS_BACKEND_FAILED"
      "w' = fprintf_stderr (GetpwnamFailed user) (snd (sniff_ext e tp w))"
  | (no_dirs) pw w2 where "getpwnam e user = Some pw" "pw_dir pw \<noteq> None"
      "ensure_queue_dirs PATH_MAX e [rootDir, incomingDir, processingDir, doneDir, failedDir]
         (snd (sniff_ext e tp w)) = (False, w2)"
      "r = CUPS_BACKEND_FAILED" "w' = w2"
  | (no_stage) pw w2 c w3 where "getpwnam e user = Some pw" "pw_dir pw \<noteq> None"
      "ensure_queue_dirs PATH_MAX e [rootDir, incomingDir, processingDir, doneDir, failedDir]
         (snd (sniff_ext e tp w)) = (True, w2)"
      "stage e tp (destDoc PATH_MAX job_id (time_now e) (fst (sniff_ext e tp w))) w2 = Some (c, w3)"
      "c \<noteq> 0" "r = CUPS_BACKEND_FAILED" "w' = w3"
  | (staged) pw w2 w3 where "getpwnam e user = Some pw" "pw_dir pw \<noteq> None"
      "ensure_queue_dirs PATH_MAX e [rootDir, incomingDir, processingDir, doneDir, failedDir]
         (snd (sniff_ext e tp w)) = (True, w2)"
      "stage e tp (destDoc PATH_MAX job_id (time_now e) (fst (sniff_ext e tp w))) w2 = Some (0, w3)"
      "write_sidecar e (destDoc PATH_MAX job_id (time_now e) (fst (sniff_ext e tp w)))
         (destJson PATH_MAX job_id (time_now e)) title user job_id pw
         (own e (destDoc PATH_MAX job_id (time_now e) (fst (sniff_ext e tp w))) pw w3) = (r, w')"
proof -
  obtain ext w1 where sn: "sniff_ext e tp w = (ext, w1)" by (cases "sniff_ext e tp w")
  show ?thesis
  proof (cases "getpwnam e user")
    case None
    then show ?thesis using assms sn no_user by (simp add: queue_job_def)
  next
    case (Some pw)
    show ?thesis
    proof (cases "pw_dir pw = None")
      case True
      then show ?thesis using assms sn Some no_user by (simp add: queue_job_def)
    next
      case False
      obtain ok w2 where ed: "ensure_queue_dirs PATH_MAX e
          [rootDir, incomingDir, processingDir, doneDir, failedDir] w1 = (ok, w2)"
        by (cases "ensure_queue_dirs PATH_MAX e
          [rootDir, incomingDir, processingDir, doneDir, failedDir] w1")
      show ?thesis
      proof (cases ok)
        case False
        then show ?thesis using assms sn Some \<open>pw_dir pw \<noteq> None\<close> ed no_dirs[OF Some]
          by (simp add: queue_job_def)
      next
        case True
        let ?st = "stage e tp (destDoc PATH_MAX job_id (time_now e) ext) w2"
        have m: "(case ?st of None \<Rightarrow> None
                  | Some (c, w3) \<Rightarrow>
                      if c \<noteq> 0 then Some (CUPS_BACKEND_FAILED, w3)
                      else Some (write_sidecar e (destDoc PATH_MAX job_id (time_now e) ext)
                             (destJson PATH_MAX job_id (time_now e)) title user job_id pw
                             (own e (destDoc PATH_MAX job_id (time_now e) ext) pw w3))) = Some (r, w')"
          using assms sn Some \<open>pw_dir pw \<noteq> None\<close> ed True by (simp add: queue_job_def Let_def)
        then obtain c w3 where st: "?st = Some (c, w3)" by (cases ?st) auto
        show ?thesis
        proof (cases "c = 0")
          case True
          then show ?thesis
            using m st sn ed \<open>ok\<close> staged[OF Some \<open>pw_dir pw \<noteq> None\<close>] by simp
        next
          case False
          then show ?thesis
            using m st sn ed \<open>ok\<close> no_stage[OF Some \<open>pw_dir pw \<noteq> None\<close>] by simp
        qed
      qed
    qed
  qed
qed

section \<open>Two example runs\<close>



section \<open>Queue names of queued jobs\<close>












lemma write_sidecar_status:
  "fst (write_sidecar e dDoc dJson title user job_id pw w) = CUPS_BACKEND_OK \<longleftrightarrow>
     fst (sys_open_creat_trunc (fopen_ok e) e dJson 438 w) \<ge> 0"
  by (auto simp: write_sidecar_def Let_def split: prod.splits)





section \<open>What the loops leave unchanged\<close>

lemma file_written_refl [simp]: "file_written p w w"
  by (simp add: file_written_def)

lemma file_written_trans:
  assumes a: "file_written p w w1" and b: "file_written p w1 w2"
  shows "file_written p w w2"
proof -
  have a1: "dirs w1 = dirs w" "dom (files w1) = dom (files w)"
      "\<And>q. q \<noteq> p \<Longrightarrow> files w1 q = files w q"
    using a by (simp_all add: file_written_def)
  have b1: "dirs w2 = dirs w1" "dom (files w2) = dom (files w1)"
      "\<And>q. q \<noteq> p \<Longrightarrow> files w2 q = files w1 q"
    using b by (simp_all add: file_written_def)
  have "s \<in> set (fs_states w) \<or>
          (snd s = dirs w \<and> dom (fst s) = dom (files w) \<and> (\<forall>q. q \<noteq> p \<longrightarrow> fst s q = files w q))"
    if s: "s \<in> set (fs_states w2)" for s
  proof -
    from b s have "s \<in> set (fs_states w1) \<or>
          (snd s = dirs w1 \<and> dom (fst s) = dom (files w1) \<and> (\<forall>q. q \<noteq> p \<longrightarrow> fst s q = files w1 q))"
      unfolding file_written_def by blast
    then show ?thesis
    proof
      assume "s \<in> set (fs_states w1)"
      with a show ?thesis unfolding file_written_def by blast
    next
      assume "snd s = dirs w1 \<and> dom (fst s) = dom (files w1) \<and> (\<forall>q. q \<noteq> p \<longrightarrow> fst s q = files w1 q)"
      then show ?thesis using a1 by simp
    qed
  qed
  then show ?thesis using a1 b1 by (simp add: file_written_def)
qed

lemma file_written_stderr [simp]: "file_written p w (fprintf_stderr m w)"
  by (simp add: file_written_def)

lemma append_file_written: "file_written p w (append_file p bs w)"
  by (auto simp: file_written_def append_file_def split: option.splits)

lemma write_loop_written:
  assumes "write_loop wr p buf n off j tw w = Some y"
  shows "file_written p w (snd (snd (snd y)))"
  using assms
proof (induction rule: write_loop.raw_induct[rotated 1, consumes 1])
  case (1 loop wr p buf n off j tw w y)
  note IH = "1.IH" and eq = "1.hyps"
  show ?case
  proof (cases "off < n \<and> \<not> sys_write (wr j) (n - off) < 0")
    case False
    then have "snd (snd (snd y)) = w" using eq by (auto simp: Let_def split: if_splits)
    then show ?thesis by simp
  next
    case True
    let ?w1 = "append_file p (take (nat (sys_write (wr j) (n - off))) (drop (nat off) buf)) w"
    have "loop wr p buf n (off + sys_write (wr j) (n - off)) (Suc j)
            (tw + word_of_int (sys_write (wr j) (n - off))) ?w1 = Some y"
      using eq True by (simp add: Let_def)
    from IH[OF this] show ?thesis
      by (rule file_written_trans[OF append_file_written])
  qed
qed

lemma capture_loop_written:
  assumes "capture_loop rd wr tp k j tw w = Some y"
  shows "file_written tp w (snd (snd (snd y)))"
  using assms
proof (induction rule: capture_loop.raw_induct[rotated 1, consumes 1])
  case (1 loop rd wr tp k j tw w y)
  note IH = "1.IH" and eq = "1.hyps"
  obtain n buffer where rd: "sys_read (rd k) 8192 = (n, buffer)"
    by (cases "sys_read (rd k) 8192")
  show ?case
  proof (cases "0 < n")
    case False
    then have "snd (snd (snd y)) = w" using eq rd by auto
    then show ?thesis by simp
  next
    case True
    then obtain ok j1 tw1 w1 where wl: "write_loop wr tp buffer n 0 j tw w = Some (ok, j1, tw1, w1)"
      using eq rd by (cases "write_loop wr tp buffer n 0 j tw w") auto
    have f1: "file_written tp w w1" using write_loop_written[OF wl] by simp
    show ?thesis
    proof (cases ok)
      case False
      then have "snd (snd (snd y)) = w1" using eq rd True wl by auto
      then show ?thesis using f1 by simp
    next
      case ok: True
      then have "loop rd wr tp (Suc k) j1 tw1 w1 = Some y" using eq rd True wl by simp
      from IH[OF this] show ?thesis by (rule file_written_trans[OF f1])
    qed
  qed
qed

lemma copy_loop_written:
  assumes "copy_loop rd wr src dst roff k j w = Some y"
  shows "file_written dst w (snd y)"
  using assms
proof (induction rule: copy_loop.raw_induct[rotated 1, consumes 1])
  case (1 loop rd wr src dst roff k j w y)
  note IH = "1.IH" and eq = "1.hyps"
  obtain n buf where rd: "sys_read_file (rd k) w src roff 8192 = (n, buf)"
    by (cases "sys_read_file (rd k) w src roff 8192")
  show ?case
  proof (cases "0 < n")
    case False
    then have "snd y = w" using eq rd by auto
    then show ?thesis by simp
  next
    case True
    then obtain ok j1 tw1 w1 where wl: "write_loop wr dst buf n 0 j 0 w = Some (ok, j1, tw1, w1)"
      using eq rd by (cases "write_loop wr dst buf n 0 j 0 w") auto
    have f1: "file_written dst w w1" using write_loop_written[OF wl] by simp
    show ?thesis
    proof (cases ok)
      case False
      then have "snd y = w1" using eq rd True wl by auto
      then show ?thesis using f1 by simp
    next
      case ok: True
      then have "loop rd wr src dst (roff + nat n) (Suc k) j1 w1 = Some y"
        using eq rd True wl by simp
      from IH[OF this] show ?thesis by (rule file_written_trans[OF f1])
    qed
  qed
qed

lemma names_kept_refl [simp]: "names_kept w w"
  by (simp add: names_kept_def)

lemma names_kept_trans:
  assumes a: "names_kept w w1" and b: "names_kept w1 w2"
  shows "names_kept w w2"
proof -
  have d: "dom (files w1) = dom (files w)" "dom (files w2) = dom (files w1)"
    using a b by (simp_all add: names_kept_def)
  have "s \<in> set (fs_states w) \<or> dom (fst s) = dom (files w)"
    if s: "s \<in> set (fs_states w2)" for s
  proof -
    from b s have "s \<in> set (fs_states w1) \<or> dom (fst s) = dom (files w1)"
      unfolding names_kept_def by blast
    then show ?thesis
    proof
      assume "s \<in> set (fs_states w1)"
      with a show ?thesis unfolding names_kept_def by blast
    next
      assume "dom (fst s) = dom (files w1)"
      then show ?thesis using d by simp
    qed
  qed
  then show ?thesis using d by (simp add: names_kept_def)
qed

lemma file_written_names_kept: "file_written p w w' \<Longrightarrow> names_kept w w'"
  unfolding file_written_def names_kept_def by blast

lemma names_kept_stderr [simp]: "names_kept w (fprintf_stderr m w)"
  by (simp add: names_kept_def)

lemma names_kept_stderr' [simp]: "names_kept w w' \<Longrightarrow> names_kept w (fprintf_stderr m w')"
  by (simp add: names_kept_def)

lemma names_kept_errno [simp]: "names_kept w (w\<lparr>errno := x\<rparr>)"
  by (simp add: names_kept_def)

lemma names_kept_update: "dom f = dom (files w) \<Longrightarrow> names_kept w (fs_update f d w)"
  by (simp add: names_kept_def)

lemma names_kept_update_file:
  "files w p = Some ino \<Longrightarrow> names_kept w (fs_update ((files w)(p \<mapsto> ino')) d w)"
  by (rule names_kept_update) auto

lemma sys_mkdir_kept: "names_kept w (snd (sys_mkdir e p mode w))"
  by (simp add: sys_mkdir_def names_kept_update)

lemma ensure_dir_kept: "names_kept w (snd (ensure_dir e p mode w))"
  using sys_mkdir_kept[of w e p mode]
  by (auto simp: ensure_dir_def split: prod.splits)

lemma ensure_dirs_loop_kept: "names_kept w (snd (ensure_dirs_loop e tmp i mode w))"
proof (induction e tmp i mode w rule: ensure_dirs_loop.induct)
  case (1 e tmp i mode w)
  show ?case
  proof (cases "i < length tmp")
    case False
    then show ?thesis by (subst ensure_dirs_loop.simps) (simp add: ensure_dir_kept)
  next
    case lt: True
    show ?thesis
    proof (cases "tmp ! i = CHR ''/''")
      case False
      then show ?thesis using lt "1.IH"(2) by (subst ensure_dirs_loop.simps) simp
    next
      case True
      obtain r w1 where ed: "ensure_dir e (take i tmp) mode w = (r, w1)"
        by (cases "ensure_dir e (take i tmp) mode w")
      have k1: "names_kept w w1" using ensure_dir_kept[of w e "take i tmp" mode] ed by simp
      show ?thesis
      proof (cases "r \<noteq> 0 \<and> errno w1 \<noteq> EEXIST")
        case True
        then show ?thesis using lt \<open>tmp ! i = CHR ''/''\<close> ed k1
          by (subst ensure_dirs_loop.simps) auto
      next
        case False
        have "names_kept w1 (snd (ensure_dirs_loop e tmp (i + 1) mode w1))"
          using "1.IH"(1)[OF lt True ed[symmetric] False] .
        then have "names_kept w (snd (ensure_dirs_loop e tmp (i + 1) mode w1))"
          by (rule names_kept_trans[OF k1])
        then show ?thesis using lt \<open>tmp ! i = CHR ''/''\<close> ed False
          by (subst ensure_dirs_loop.simps) auto
      qed
    qed
  qed
qed

lemma ensure_dirs_recursive_kept: "names_kept w (snd (ensure_dirs_recursive P e p mode w))"
  by (simp add: ensure_dirs_recursive_def ensure_dirs_loop_kept)

lemma sys_chmod_kept: "names_kept w (snd (sys_chmod e p mode w))"
  by (auto simp: sys_chmod_def names_kept_update names_kept_update_file split: option.splits)

lemma sys_chown_kept: "names_kept w (snd (sys_chown e p u g w))"
  by (auto simp: sys_chown_def names_kept_update names_kept_update_file split: option.splits)

lemma own_kept: "names_kept w (own e p pw w)"
proof -
  obtain r w1 where c: "sys_chown e p (pw_uid pw) (pw_gid pw) w = (r, w1)"
    by (cases "sys_chown e p (pw_uid pw) (pw_gid pw) w")
  have "names_kept w w1" using sys_chown_kept[of w e p "pw_uid pw" "pw_gid pw"] c by simp
  then have "names_kept w (if r \<noteq> 0 then fprintf_stderr (ChownFailed p) w1 else w1)" by simp
  then have "names_kept w
      (snd (sys_chmod e p 420 (if r \<noteq> 0 then fprintf_stderr (ChownFailed p) w1 else w1)))"
    by (rule names_kept_trans[OF _ sys_chmod_kept])
  then show ?thesis by (simp add: own_def c)
qed

lemma ensure_queue_dirs_kept: "names_kept w (snd (ensure_queue_dirs P e ds w))"
proof (induction ds arbitrary: w)
  case Nil
  then show ?case by simp
next
  case (Cons d ds)
  obtain r w1 where ed: "ensure_dirs_recursive P e d 511 w = (r, w1)"
    by (cases "ensure_dirs_recursive P e d 511 w")
  have k1: "names_kept w w1" using ensure_dirs_recursive_kept[of w P e d 511] ed by simp
  show ?case
  proof (cases "r \<noteq> 0")
    case True
    then show ?thesis using ed k1 by simp
  next
    case False
    have "names_kept w (snd (sys_chmod e d 1023 w1))"
      by (rule names_kept_trans[OF k1 sys_chmod_kept])
    then have "names_kept w (snd (ensure_queue_dirs P e ds (snd (sys_chmod e d 1023 w1))))"
      by (rule names_kept_trans[OF _ Cons.IH])
    then show ?thesis using ed False by simp
  qed
qed

section \<open>The temp file is no queue file\<close>

lemma mkstemp_SomeD:
  assumes "mkstemp e template w = Some (tp, w1)"
  shows "\<exists>sfx. mkstemp_name e = Some sfx
           \<and> tp = take (length template - trailing_X template) template @ sfx
           \<and> length sfx = trailing_X template \<and> list_all alnum sfx"
    and "files w tp = None" and "dirs w tp = None"
    and "w1 = fs_update ((files w)(tp \<mapsto>
                \<lparr>owner = proc_owner e, perm = and 384 (not (umask e)), bytes = []\<rparr>)) (dirs w) w"
  using assms by (auto simp: mkstemp_def Let_def split: option.splits if_splits)

lemma alnum_suffix_neq:
  assumes "length sfx = 6" and "list_all alnum sfx" and "length zs < 6"
  shows "xs @ sfx \<noteq> ys @ CHR ''.'' # zs"
proof
  assume eq: "xs @ sfx = ys @ CHR ''.'' # zs"
  then have "length (xs @ sfx) = length (ys @ CHR ''.'' # zs)" by simp
  then have l: "length xs \<le> length ys" "length ys < length xs + length sfx"
    using assms(1,3) by auto
  have "(xs @ sfx) ! length ys = sfx ! (length ys - length xs)"
    using l by (simp add: nth_append)
  moreover have "(ys @ CHR ''.'' # zs) ! length ys = CHR ''.''" by simp
  ultimately have "sfx ! (length ys - length xs) = CHR ''.''" using eq by simp
  moreover have "length ys - length xs < length sfx" using l by auto
  ultimately have "CHR ''.'' \<in> set sfx" by (metis nth_mem)
  then have "alnum (CHR ''.'')" using assms(2) by (simp add: list_all_iff)
  then show False by (simp add: alnum_def)
qed

lemma trailing_X_le: "trailing_X t \<le> length t"
  unfolding trailing_X_def by (metis length_rev length_takeWhile_le)

lemma trailing_X_template: "trailing_X (d @ ''/onenote-print-XXXXXX'') = 6"
  by (simp add: trailing_X_def)

lemma length_destJson: "length (destJson P job now) \<le> 297"
  using length_baseName[of job now] by (simp add: destJson_def snprintf_def incomingDir_def)

lemma length_destDoc: "ext = ''ps'' \<or> ext = ''pdf'' \<Longrightarrow> length (destDoc P job now ext) \<le> 297"
  using length_baseName[of job now] by (auto simp: destDoc_def snprintf_def incomingDir_def)

lemma temp_not_queue:
  assumes mk: "mkstemp e (templatePath e) w = Some (tp, w1)" and pm: "298 \<le> P"
  shows "tp \<noteq> destJson P job now"
    and "ext = ''ps'' \<or> ext = ''pdf'' \<Longrightarrow> tp \<noteq> destDoc P job now ext"
proof -
  define d where "d = (case getenv_TMPDIR e of None \<Rightarrow> default_tmpdir
                       | Some d \<Rightarrow> if d = [] then default_tmpdir else d)"
  have T: "templatePath e = take 1023 (d @ ''/onenote-print-XXXXXX'')"
    unfolding templatePath_def d_def snprintf_def Let_def by simp
  from mkstemp_SomeD(1)[OF mk] obtain sfx where
    tp: "tp = take (length (templatePath e) - trailing_X (templatePath e)) (templatePath e) @ sfx"
    and ls: "length sfx = trailing_X (templatePath e)" and al: "list_all alnum sfx"
    by blast
  have ltp: "length tp = length (templatePath e)"
    using trailing_X_le[of "templatePath e"] by (simp add: tp ls)
  have both: "tp \<noteq> destJson P job now
         \<and> (ext = ''ps'' \<or> ext = ''pdf'' \<longrightarrow> tp \<noteq> destDoc P job now ext)"
  proof (cases "length d + 21 \<le> 1023")
    case False
    then have "length tp = 1023" using ltp by (simp add: T)
    then show ?thesis
      using length_destJson[of P job now] length_destDoc[of ext P job now] by auto
  next
    case True
    then have T': "templatePath e = d @ ''/onenote-print-XXXXXX''" by (simp add: T)
    have tx: "trailing_X (templatePath e) = 6" by (simp only: T' trailing_X_template)
    have tp': "tp = (d @ ''/onenote-print-'') @ sfx"
      by (simp add: tp T' trailing_X_template)
    have l6: "length sfx = 6" using ls tx by simp
    have j: "tp \<noteq> destJson P job now"
      unfolding tp' destJson_fits[OF pm]
      using alnum_suffix_neq[OF l6 al, of "''json''" "d @ ''/onenote-print-''"
              "incomingDir @ ''/'' @ baseName job now"]
      by simp
    have "tp \<noteq> destDoc P job now ext" if e: "ext = ''ps'' \<or> ext = ''pdf''"
      unfolding tp' destDoc_fits[OF pm e]
      using alnum_suffix_neq[OF l6 al, of "''ps''" "d @ ''/onenote-print-''"
              "incomingDir @ ''/'' @ baseName job now"]
            alnum_suffix_neq[OF l6 al, of "''pdf''" "d @ ''/onenote-print-''"
              "incomingDir @ ''/'' @ baseName job now"] e
      by auto
    then show ?thesis using j by blast
  qed
  show "tp \<noteq> destJson P job now" using both by blast
  show "ext = ''ps'' \<or> ext = ''pdf'' \<Longrightarrow> tp \<noteq> destDoc P job now ext" using both by blast
qed

lemma doc_not_json:
  assumes "298 \<le> P" and "ext = ''ps'' \<or> ext = ''pdf''"
  shows "destDoc P job now ext \<noteq> destJson P job now"
  using assms(2)
  by (auto simp: destDoc_fits[OF assms] destJson_fits[OF assms(1)] intro!: suffix_last_neq)

section \<open>Termination\<close>

lemma write_loop_terminates:
  assumes wp: "writes_progress wr"
  shows "write_loop wr p buf n off j tw w \<noteq> None"
proof (induction "nat (n - off)" arbitrary: off j tw w rule: less_induct)
  case less
  have inner: "wr (j + d) \<noteq> 0 \<Longrightarrow> write_loop wr p buf n off j tw w \<noteq> None" for d j tw w
  proof (induction d arbitrary: j tw w)
    case 0
    show ?case
    proof (cases "off < n")
      case False
      then show ?thesis by (subst write_loop.simps) simp
    next
      case lt: True
      show ?thesis
      proof (cases "wr j < 0")
        case True
        then show ?thesis using lt by (subst write_loop.simps) (simp add: sys_write_def)
      next
        case False
        then have pos: "0 < sys_write (wr j) (n - off)" "\<not> sys_write (wr j) (n - off) < 0"
          using 0 lt by (auto simp: sys_write_def)
        then have "nat (n - (off + sys_write (wr j) (n - off))) < nat (n - off)"
          using lt by linarith
        from less[OF this] show ?thesis using lt pos
          by (subst write_loop.simps) (simp add: Let_def)
      qed
    qed
  next
    case (Suc d)
    show ?case
    proof (cases "wr j = 0")
      case False
      then have "wr (j + 0) \<noteq> 0" by simp
      then show ?thesis
      proof (cases "off < n")
        case False
        then show ?thesis by (subst write_loop.simps) simp
      next
        case lt: True
        show ?thesis
        proof (cases "wr j < 0")
          case True
          then show ?thesis using lt by (subst write_loop.simps) (simp add: sys_write_def)
        next
          case nneg: False
          then have pos: "0 < sys_write (wr j) (n - off)" "\<not> sys_write (wr j) (n - off) < 0"
            using \<open>wr j \<noteq> 0\<close> lt by (auto simp: sys_write_def)
          then have "nat (n - (off + sys_write (wr j) (n - off))) < nat (n - off)"
            using lt by linarith
          from less[OF this] show ?thesis using lt pos
            by (subst write_loop.simps) (simp add: Let_def)
        qed
      qed
    next
      case z: True
      have "wr (Suc j + d) \<noteq> 0" using Suc.prems by simp
      from Suc.IH[OF this] show ?thesis using z
        by (subst write_loop.simps) (auto simp: Let_def sys_write_def)
    qed
  qed
  from wp obtain j' where "j' \<ge> j" "wr j' \<noteq> 0" unfolding writes_progress_def by blast
  then have "wr (j + (j' - j)) \<noteq> 0" by simp
  then show ?case by (rule inner)
qed

lemma capture_loop_terminates:
  assumes wp: "writes_progress wr" and fin: "fst (sys_read (rd kend) 8192) \<le> 0"
  shows "k \<le> kend \<Longrightarrow> capture_loop rd wr tp k j tw w \<noteq> None"
proof (induction "kend - k" arbitrary: k j tw w)
  case 0
  then have "k = kend" by simp
  then show ?case using fin
    by (subst capture_loop.simps) (simp add: split_beta)
next
  case (Suc d)
  obtain n buffer where rd: "sys_read (rd k) 8192 = (n, buffer)"
    by (cases "sys_read (rd k) 8192")
  show ?case
  proof (cases "0 < n")
    case False
    then show ?thesis using rd by (subst capture_loop.simps) simp
  next
    case True
    obtain ok j1 tw1 w1 where wl: "write_loop wr tp buffer n 0 j tw w = Some (ok, j1, tw1, w1)"
      using write_loop_terminates[OF wp, of tp buffer n 0 j tw w] by (metis not_None_eq prod_cases4)
    have "capture_loop rd wr tp (Suc k) j1 tw1 w1 \<noteq> None"
      using Suc.hyps(1)[of "Suc k"] Suc.hyps(2) Suc.prems by simp
    then show ?thesis using rd True wl by (subst capture_loop.simps) simp
  qed
qed

lemma copy_loop_terminates:
  assumes wp: "writes_progress wr" and ne: "src \<noteq> dst"
  shows "copy_loop rd wr src dst roff k j w \<noteq> None"
proof (induction "length (file_bytes w src) - roff" arbitrary: roff k j w rule: less_induct)
  case less
  obtain n buf where rd: "sys_read_file (rd k) w src roff 8192 = (n, buf)"
    by (cases "sys_read_file (rd k) w src roff 8192")
  show ?case
  proof (cases "0 < n")
    case False
    then show ?thesis using rd by (subst copy_loop.simps) simp
  next
    case True
    obtain ok j1 tw1 w1 where wl: "write_loop wr dst buf n 0 j 0 w = Some (ok, j1, tw1, w1)"
      using write_loop_terminates[OF wp, of dst buf n 0 j 0 w] by (metis not_None_eq prod_cases4)
    have "file_written dst w w1" using write_loop_written[OF wl] by simp
    then have "files w1 src = files w src" using ne by (simp add: file_written_def)
    then have same: "file_bytes w1 src = file_bytes w src" by (simp add: file_bytes_def)
    have "nat n \<le> length (file_bytes w src) - roff" "0 < nat n"
      using rd True by (auto simp: sys_read_file_def split: if_splits)
    then have "length (file_bytes w1 src) - (roff + nat n) < length (file_bytes w src) - roff"
      using same by simp
    from less[OF this] show ?thesis using rd True wl by (subst copy_loop.simps) simp
  qed
qed

lemma copy_file_terminates:
  assumes wp: "writes_progress (copy_write e)"
  shows "copy_file e src dst mode w \<noteq> None"
proof (cases "\<not> copy_open_src_ok e \<or> files w src = None")
  case True
  then show ?thesis by (simp add: copy_file_def)
next
  case ok: False
  obtain out w1 where op: "sys_open_creat_trunc (copy_open_dst_ok e) e dst mode w = (out, w1)"
    by (cases "sys_open_creat_trunc (copy_open_dst_ok e) e dst mode w")
  show ?thesis
  proof (cases "out < 0")
    case True
    then show ?thesis using ok op by (simp add: copy_file_def)
  next
    case False
    have "copy_loop (copy_read_ok e) (copy_write e) src dst 0 0 0 w1 \<noteq> None"
    proof (cases "src = dst")
      case ne: False
      then show ?thesis by (rule copy_loop_terminates[OF wp])
    next
      case True
      have "file_bytes w1 dst = []"
        using op False by (auto simp: sys_open_creat_trunc_def split: if_splits option.splits)
      then show ?thesis using True
        by (subst copy_loop.simps) (simp add: sys_read_file_def)
    qed
    then show ?thesis using ok op False by (simp add: copy_file_def)
  qed
qed

lemma stage_terminates:
  assumes wp: "writes_progress (copy_write e)"
  shows "stage e tp dDoc w \<noteq> None"
proof -
  obtain r w1 where rn: "sys_rename e tp dDoc w = (r, w1)" by (cases "sys_rename e tp dDoc w")
  obtain c w2 where cp: "copy_file e tp dDoc 420 w1 = Some (c, w2)"
    using copy_file_terminates[OF wp, of tp dDoc 420 w1] by (metis not_None_eq surj_pair)
  show ?thesis using rn cp by (simp add: stage_def)
qed

lemma queue_job_terminates:
  assumes wp: "writes_progress (copy_write e)"
  shows "queue_job P e job_id user title tp w \<noteq> None"
proof -
  have "(case stage e tp d w2 of None \<Rightarrow> None
         | Some (r, w3) \<Rightarrow> if r \<noteq> 0 then Some (CUPS_BACKEND_FAILED, w3) else Some (f w3)) \<noteq> None"
    for d w2 and f :: "world \<Rightarrow> backend_status \<times> world"
    using stage_terminates[OF wp, of tp d w2] by (auto split: option.splits)
  then show ?thesis
    by (simp add: queue_job_def Let_def split: prod.splits option.splits)
qed

lemma main_terminates:
  assumes "input_ends (read_input e)" and "writes_progress (write_temp e)"
    and "writes_progress (copy_write e)"
  shows "main P argv e w \<noteq> None"
proof -
  from assms(1) obtain kend where ke: "fst (sys_read (read_input e kend) 8192) \<le> 0"
    unfolding input_ends_def by blast
  have c: "capture_loop (read_input e) (write_temp e) tp 0 0 0 w1 \<noteq> None" for tp w1
    using capture_loop_terminates[of "write_temp e" "read_input e" kend 0 tp 0 0 w1] assms(2) ke
    by simp
  have q: "queue_job P e a b c tp w2 \<noteq> None" for a b c tp w2
    by (rule queue_job_terminates[OF assms(3)])
  show ?thesis
  proof (cases "mkstemp e (templatePath e) w")
    case None
    then show ?thesis by (simp add: main_def Let_def)
  next
    case (Some a)
    obtain tp w1 where a: "a = (tp, w1)" by (cases a)
    obtain fin k tw w2 where cl:
      "capture_loop (read_input e) (write_temp e) tp 0 0 0 w1 = Some (fin, k, tw, w2)"
      using c[of tp w1] by (metis not_None_eq prod_cases4)
    show ?thesis
      using Some a cl q
      by (cases fin) (simp_all add: main_def Let_def del: One_nat_def)
  qed
qed

section \<open>The sidecar\<close>








section \<open>A user that does not resolve\<close>

lemma only_file_refl [simp]: "only_file p w w"
  by (simp add: only_file_def)

lemma only_file_stderr [simp]: "only_file p w (fprintf_stderr m w') = only_file p w w'"
  by (simp add: only_file_def)

lemma file_written_only: "file_written p w w' \<Longrightarrow> only_file p w w'"
  unfolding file_written_def only_file_def by blast

lemma only_file_trans:
  assumes a: "only_file p w w1" and b: "only_file p w1 w2"
  shows "only_file p w w2"
proof -
  have a1: "dirs w1 = dirs w" "\<And>q. q \<noteq> p \<Longrightarrow> files w1 q = files w q"
    using a by (simp_all add: only_file_def)
  have b1: "dirs w2 = dirs w1" "\<And>q. q \<noteq> p \<Longrightarrow> files w2 q = files w1 q"
    using b by (simp_all add: only_file_def)
  have "s \<in> set (fs_states w) \<or> (snd s = dirs w \<and> (\<forall>q. q \<noteq> p \<longrightarrow> fst s q = files w q))"
    if s: "s \<in> set (fs_states w2)" for s
  proof -
    from b s have "s \<in> set (fs_states w1) \<or>
          (snd s = dirs w1 \<and> (\<forall>q. q \<noteq> p \<longrightarrow> fst s q = files w1 q))"
      unfolding only_file_def by blast
    then show ?thesis
    proof
      assume "s \<in> set (fs_states w1)"
      with a show ?thesis unfolding only_file_def by blast
    next
      assume "snd s = dirs w1 \<and> (\<forall>q. q \<noteq> p \<longrightarrow> fst s q = files w1 q)"
      then show ?thesis using a1 by simp
    qed
  qed
  then show ?thesis using a1 b1 by (simp add: only_file_def)
qed

lemma mkstemp_only_file: "mkstemp e t w = Some (tp, w1) \<Longrightarrow> only_file tp w w1"
  using mkstemp_SomeD(4)[of e t w tp w1] by (simp add: only_file_def)

lemma sniff_ext_world:
  "snd (sniff_ext e tp w) = w \<or> snd (sniff_ext e tp w) = fprintf_stderr DetectedPostScript w"
  by (simp add: sniff_ext_def)

lemma only_file_sniff: "only_file p w w' \<Longrightarrow> only_file p w (snd (sniff_ext e tp w'))"
  using sniff_ext_world[of e tp w'] by auto

lemma main_nouser:
  assumes m: "main P argv e w = Some (r, w')"
    and nouser: "getpwnam e (argv ! 2) = None
                 \<or> (\<exists>pw. getpwnam e (argv ! 2) = Some pw \<and> pw_dir pw = None)"
    and argc: "length argv = 6 \<or> length argv = 7"
  shows "r = CUPS_BACKEND_FAILED"
    and "(mkstemp e (templatePath e) w = None \<and> fs_states w' = fs_states w)
         \<or> (\<exists>tp w1. mkstemp e (templatePath e) w = Some (tp, w1) \<and> only_file tp w w')"
proof -
  have "r = CUPS_BACKEND_FAILED \<and>
        ((mkstemp e (templatePath e) w = None \<and> fs_states w' = fs_states w)
         \<or> (\<exists>tp w1. mkstemp e (templatePath e) w = Some (tp, w1) \<and> only_file tp w w'))"
    using m argc
  proof (cases rule: main_job_cases)
    case temp_failed
    then show ?thesis by simp
  next
    case (open_failed tp w1)
    then show ?thesis using mkstemp_only_file[OF open_failed(1)] by auto
  next
    case (write_failed tp w1 k tw w2)
    have "only_file tp w w2"
      using only_file_trans[OF mkstemp_only_file[OF write_failed(1)]
              file_written_only[OF capture_loop_written[OF write_failed(2)]]] by simp
    then show ?thesis using write_failed by simp
  next
    case (read_failed tp w1 n k tw w2)
    have "only_file tp w w2"
      using only_file_trans[OF mkstemp_only_file[OF read_failed(1)]
              file_written_only[OF capture_loop_written[OF read_failed(2)]]] by simp
    then show ?thesis using read_failed by simp
  next
    case (queue tp w1 n k tw w2)
    have o2: "only_file tp w (fprintf_stderr (WroteBytes tw tp) w2)"
      using only_file_trans[OF mkstemp_only_file[OF queue(1)]
              file_written_only[OF capture_loop_written[OF queue(2)]]] by simp
    from queue(4) show ?thesis
    proof (cases rule: queue_job_cases)
      case no_user
      then show ?thesis using queue(1) only_file_sniff[OF o2] by simp
    next
      case (no_dirs pw w2)
      then show ?thesis using nouser by auto
    next
      case (no_stage pw w2 c w3)
      then show ?thesis using nouser by auto
    next
      case (staged pw w2 w3)
      then show ?thesis using nouser by auto
    qed
  qed
  then show "r = CUPS_BACKEND_FAILED"
    and "(mkstemp e (templatePath e) w = None \<and> fs_states w' = fs_states w)
         \<or> (\<exists>tp w1. mkstemp e (templatePath e) w = Some (tp, w1) \<and> only_file tp w w')"
    by blast+
qed

lemma queue_job_nouser:
  assumes "getpwnam e user = None \<or> (\<exists>pw. getpwnam e user = Some pw \<and> pw_dir pw = None)"
  shows "queue_job P e job_id user title tp w \<noteq> None"
  using assms by (auto simp: queue_job_def split: prod.splits)

lemma main_nouser_terminates:
  assumes nouser: "getpwnam e (argv ! 2) = None
                 \<or> (\<exists>pw. getpwnam e (argv ! 2) = Some pw \<and> pw_dir pw = None)"
    and ie: "input_ends (read_input e)" and wp: "writes_progress (write_temp e)"
  shows "main P argv e w \<noteq> None"
proof -
  from ie obtain kend where ke: "fst (sys_read (read_input e kend) 8192) \<le> 0"
    unfolding input_ends_def by blast
  have c: "capture_loop (read_input e) (write_temp e) tp 0 0 0 w1 \<noteq> None" for tp w1
    using capture_loop_terminates[of "write_temp e" "read_input e" kend 0 tp 0 0 w1] wp ke
    by simp
  have q: "queue_job P e a (argv ! 2) c tp w2 \<noteq> None" for a c tp w2
    by (rule queue_job_nouser[OF nouser])
  show ?thesis
  proof (cases "mkstemp e (templatePath e) w")
    case None
    then show ?thesis by (simp add: main_def Let_def)
  next
    case (Some a)
    obtain tp w1 where a: "a = (tp, w1)" by (cases a)
    obtain fin k tw w2 where cl:
      "capture_loop (read_input e) (write_temp e) tp 0 0 0 w1 = Some (fin, k, tw, w2)"
      using c[of tp w1] by (metis not_None_eq prod_cases4)
    show ?thesis
      using Some a cl q
      by (cases fin) (simp_all add: main_def Let_def del: One_nat_def)
  qed
qed

text \<open>
  C7. When the user does not resolve (getpwnam returns no entry, or one without a home
  directory), main returns failure, and it does return when the input ends and the
  writes to the temp file make progress. In every state of the file system that the
  run passes through, the directories are those of the start and nothing but one file,
  the temp file, differs from the start; in particular (no path being cut, \<open>PATH_MAX\<close>
  at least 298) every document path and every sidecar path of the queue is as at the
  start: no queue artifact is ever created.
\<close>

theorem unknown_user_fails_before_queue:
  assumes nouser: "getpwnam e (argv ! 2) = None
                 \<or> (\<exists>pw. getpwnam e (argv ! 2) = Some pw \<and> pw_dir pw = None)"
    and argc: "length argv = 6 \<or> length argv = 7"
  shows "(input_ends (read_input e) \<and> writes_progress (write_temp e) \<longrightarrow>
            (\<exists>w'. main P argv e w = Some (CUPS_BACKEND_FAILED, w')))
       \<and> (\<forall>r w'. main P argv e w = Some (r, w') \<longrightarrow>
            r = CUPS_BACKEND_FAILED
            \<and> (\<exists>tp. only_file tp w w')
            \<and> (298 \<le> P \<longrightarrow>
                 (\<forall>s \<in> set (fs_states w'). s \<in> set (fs_states w) \<or>
                    (snd s = dirs w \<and>
                     (\<forall>job_id now.
                        fst s (destJson P job_id now) = files w (destJson P job_id now)
                        \<and> fst s (destDoc P job_id now ''ps'') = files w (destDoc P job_id now ''ps'')
                        \<and> fst s (destDoc P job_id now ''pdf'')
                            = files w (destDoc P job_id now ''pdf''))))))"
proof (intro conjI impI allI)
  assume "input_ends (read_input e) \<and> writes_progress (write_temp e)"
  then have "main P argv e w \<noteq> None"
    using main_nouser_terminates[OF nouser] by blast
  then obtain r w' where m: "main P argv e w = Some (r, w')" by (cases "main P argv e w") auto
  then show "\<exists>w'. main P argv e w = Some (CUPS_BACKEND_FAILED, w')"
    using main_nouser(1)[OF m nouser argc] by blast
next
  fix r w' assume m: "main P argv e w = Some (r, w')"
  show "r = CUPS_BACKEND_FAILED" by (rule main_nouser(1)[OF m nouser argc])
next
  fix r w' assume m: "main P argv e w = Some (r, w')"
  from main_nouser(2)[OF m nouser argc] show "\<exists>tp. only_file tp w w'"
  proof
    assume "mkstemp e (templatePath e) w = None \<and> fs_states w' = fs_states w"
    then have "only_file [] w w'" by (auto simp: only_file_def fs_states_def)
    then show ?thesis by blast
  qed blast
next
  fix r w' assume m: "main P argv e w = Some (r, w')" and pm: "298 \<le> P"
  let ?Q = "\<lambda>s. snd s = dirs w \<and>
                     (\<forall>job_id now.
                        fst s (destJson P job_id now) = files w (destJson P job_id now)
                        \<and> fst s (destDoc P job_id now ''ps'') = files w (destDoc P job_id now ''ps'')
                        \<and> fst s (destDoc P job_id now ''pdf'')
                            = files w (destDoc P job_id now ''pdf''))"
  from main_nouser(2)[OF m nouser argc]
  show "\<forall>s \<in> set (fs_states w'). s \<in> set (fs_states w) \<or> ?Q s"
  proof
    assume "mkstemp e (templatePath e) w = None \<and> fs_states w' = fs_states w"
    then show ?thesis by simp
  next
    assume "\<exists>tp w1. mkstemp e (templatePath e) w = Some (tp, w1) \<and> only_file tp w w'"
    then obtain tp w1 where mk: "mkstemp e (templatePath e) w = Some (tp, w1)"
      and o: "only_file tp w w'" by blast
    have ne: "destJson P job_id now \<noteq> tp" "destDoc P job_id now ''ps'' \<noteq> tp"
      "destDoc P job_id now ''pdf'' \<noteq> tp" for job_id now
      using temp_not_queue(1)[OF mk pm] temp_not_queue(2)[OF mk pm] by metis+
    show ?thesis
    proof
      fix s assume "s \<in> set (fs_states w')"
      with o have "s \<in> set (fs_states w) \<or> (snd s = dirs w \<and> (\<forall>q. q \<noteq> tp \<longrightarrow> fst s q = files w q))"
        unfolding only_file_def by blast
      then show "s \<in> set (fs_states w) \<or> ?Q s" using ne by auto
    qed
  qed
qed

lemma ex_writes_progress: "writes_progress (write_temp ex_os)"
  unfolding writes_progress_def
proof
  fix j show "\<exists>j'\<ge>j. write_temp ex_os j' \<noteq> 0"
    by (rule exI[of _ "j + 2"]) (simp add: ex_os_def)
qed

lemma ex_input_ends: "input_ends (read_input ex_os)"
  unfolding input_ends_def by (rule exI[of _ 2]) (simp add: ex_os_def sys_read_def)

theorem unknown_user_fails_before_queue_witness:
  "getpwnam ex_os (ex_argv_bob ! 2) = None \<and> length ex_argv_bob = 7
   \<and> input_ends (read_input ex_os) \<and> writes_progress (write_temp ex_os) \<and> (298::nat) \<le> 1024
   \<and> (\<exists>w'. main 1024 ex_argv_bob ex_os ex_world = Some (CUPS_BACKEND_FAILED, w')
         \<and> (\<exists>tp. only_file tp ex_world w')
         \<and> (\<forall>s \<in> set (fs_states w'). s \<in> set (fs_states ex_world) \<or>
               (snd s = dirs ex_world \<and>
                (\<forall>job_id now.
                   fst s (destJson 1024 job_id now) = files ex_world (destJson 1024 job_id now)
                   \<and> fst s (destDoc 1024 job_id now ''ps'') = files ex_world (destDoc 1024 job_id now ''ps'')
                   \<and> fst s (destDoc 1024 job_id now ''pdf'')
                       = files ex_world (destDoc 1024 job_id now ''pdf'')))))"
proof -
  have u: "getpwnam ex_os (ex_argv_bob ! 2) = None" by (simp add: ex_os_def ex_argv_bob_def)
  have l: "length ex_argv_bob = 7" by (simp add: ex_argv_bob_def)
  note t = unknown_user_fails_before_queue[of ex_os ex_argv_bob 1024 ex_world, OF disjI1[OF u] disjI2[OF l]]
  from t ex_input_ends ex_writes_progress
  obtain w' where m: "main 1024 ex_argv_bob ex_os ex_world = Some (CUPS_BACKEND_FAILED, w')"
    by blast
  show ?thesis using u l ex_input_ends ex_writes_progress m t by auto
qed

section \<open>Staging that fails\<close>

lemma take_chunk: "take n xs @ take c (drop n xs) = take (n + length (take c (drop n xs))) xs"
proof -
  have "take (length (take c (drop n xs))) (drop n xs) = take c (drop n xs)"
    by (simp add: min_def)
  then show ?thesis by (simp add: take_add)
qed

lemma copy_loop_prefix:
  assumes "copy_loop rd wr src dst roff k j w = Some y"
  shows "src \<noteq> dst \<longrightarrow> files w dst \<noteq> None \<longrightarrow> file_bytes w dst = take roff (file_bytes w src) \<longrightarrow>
     (case y of (c, w') \<Rightarrow>
        (c = 0 \<or> c = - 1) \<and> files w' dst \<noteq> None \<and> files w' src = files w src
        \<and> (\<exists>m. file_bytes w' dst = take m (file_bytes w src))
        \<and> (c = 0 \<longrightarrow> file_bytes w' dst = file_bytes w src))"
  using assms
proof (induction rule: copy_loop.raw_induct[rotated 1, consumes 1])
  case (1 loop rd wr src dst roff k j w y)
  note IH = "1.IH" and eq = "1.hyps"
  let ?src = "file_bytes w src"
  obtain n buf where rd: "sys_read_file (rd k) w src roff 8192 = (n, buf)"
    by (cases "sys_read_file (rd k) w src roff 8192")
  show ?case
  proof (intro impI)
    assume ne: "src \<noteq> dst" and ex: "files w dst \<noteq> None"
      and inv: "file_bytes w dst = take roff ?src"
    show "case y of (c, w') \<Rightarrow>
        (c = 0 \<or> c = - 1) \<and> files w' dst \<noteq> None \<and> files w' src = files w src
        \<and> (\<exists>m. file_bytes w' dst = take m ?src)
        \<and> (c = 0 \<longrightarrow> file_bytes w' dst = ?src)"
    proof (cases "0 < n")
      case False
      then have y: "y = (if n < 0 then - 1 else 0, w)" using eq rd by simp
      have "file_bytes w dst = ?src" if "\<not> n < 0"
      proof -
        have "n = 0" using that False by simp
        then have "take 8192 (drop roff ?src) = []"
          using rd by (auto simp: sys_read_file_def split: if_splits)
        then have "length ?src \<le> roff" by simp
        then show ?thesis using inv by simp
      qed
      moreover have "\<exists>m. file_bytes w dst = take m ?src" using inv by blast
      ultimately show ?thesis using y ex by auto
    next
      case pos: True
      then have buf: "buf = take 8192 (drop roff ?src)" "n = int (length buf)"
        using rd by (auto simp: sys_read_file_def split: if_splits)
      obtain ok j1 t1 w1 where wl: "write_loop wr dst buf n 0 j 0 w = Some (ok, j1, t1, w1)"
        using eq rd pos by (cases "write_loop wr dst buf n 0 j 0 w") auto
      from write_loop_bytes[OF wl] ex buf(2)
      obtain m where m: "files w1 dst \<noteq> None" "m \<le> length buf"
          "file_bytes w1 dst = file_bytes w dst @ take m buf" "ok \<longrightarrow> m = length buf"
        by auto
      have fw: "file_written dst w w1" using write_loop_written[OF wl] by simp
      then have s1: "files w1 src = files w src" using ne by (simp add: file_written_def)
      then have sb: "file_bytes w1 src = ?src" by (simp add: file_bytes_def)
      have pre: "\<exists>m'. file_bytes w1 dst = take m' ?src"
      proof -
        have "take m buf = take (min m 8192) (drop roff ?src)" by (simp add: buf(1))
        then have "file_bytes w1 dst
            = take (roff + length (take (min m 8192) (drop roff ?src))) ?src"
          using m(3) inv take_chunk[of roff ?src "min m 8192"] by simp
        then show ?thesis by blast
      qed
      show ?thesis
      proof (cases ok)
        case False
        then have "y = (- 1, w1)" using eq rd pos wl by simp
        then show ?thesis using m(1) s1 pre by auto
      next
        case True
        then have rec: "loop rd wr src dst (roff + nat n) (Suc k) j1 w1 = Some y"
          using eq rd pos wl by simp
        have "file_bytes w1 dst = file_bytes w dst @ buf" using m True by simp
        then have inv1: "file_bytes w1 dst = take (roff + nat n) (file_bytes w1 src)"
          using inv buf take_chunk[of roff ?src 8192] by (simp add: sb)
        obtain c w' where y: "y = (c, w')" by (cases y)
        from IH[OF rec] ne m(1) inv1 y
        have "(c = 0 \<or> c = - 1) \<and> files w' dst \<noteq> None \<and> files w' src = files w1 src
            \<and> (\<exists>m. file_bytes w' dst = take m (file_bytes w1 src))
            \<and> (c = 0 \<longrightarrow> file_bytes w' dst = file_bytes w1 src)"
          by simp
        then show ?thesis using y s1 sb by simp
      qed
    qed
  qed
qed

lemma copy_file_result:
  assumes cf: "copy_file e src dst mode w = Some (c, w')"
    and ne: "src \<noteq> dst" and ab: "files w dst = None"
  shows "c = 0 \<or> c = - 1"
    and "files w' src = files w src"
    and "(files w' dst = None) =
           (\<not> (copy_open_src_ok e \<and> files w src \<noteq> None \<and> copy_open_dst_ok e \<and> name_ok dst
               \<and> dirs w dst = None))"
    and "\<exists>m. file_bytes w' dst = take m (file_bytes w src)"
    and "c = 0 \<longrightarrow> files w' dst \<noteq> None \<and> file_bytes w' dst = file_bytes w src"
proof -
  have all: "(c = 0 \<or> c = - 1) \<and> files w' src = files w src
    \<and> ((files w' dst = None) =
           (\<not> (copy_open_src_ok e \<and> files w src \<noteq> None \<and> copy_open_dst_ok e \<and> name_ok dst
               \<and> dirs w dst = None)))
    \<and> (\<exists>m. file_bytes w' dst = take m (file_bytes w src))
    \<and> (c = 0 \<longrightarrow> files w' dst \<noteq> None \<and> file_bytes w' dst = file_bytes w src)"
  proof (cases "\<not> copy_open_src_ok e \<or> files w src = None")
    case True
    then have "c = - 1" "w' = w" using cf by (auto simp: copy_file_def)
    then show ?thesis using True ab by (auto simp: file_bytes_def)
  next
    case src: False
    obtain out w1 where op: "sys_open_creat_trunc (copy_open_dst_ok e) e dst mode w = (out, w1)"
      by (cases "sys_open_creat_trunc (copy_open_dst_ok e) e dst mode w")
    show ?thesis
    proof (cases "out < 0")
      case True
      then have r: "c = - 1" "w' = w1" using cf src op by (auto simp: copy_file_def)
      have "w1 = w" "\<not> (copy_open_dst_ok e \<and> name_ok dst \<and> dirs w dst = None)"
        using op True ab by (auto simp: sys_open_creat_trunc_def split: if_splits)
      then show ?thesis using r ab by (auto simp: file_bytes_def)
    next
      case False
      then have cl: "copy_loop (copy_read_ok e) (copy_write e) src dst 0 0 0 w1 = Some (c, w')"
        using cf src op by (auto simp: copy_file_def)
      have o: "copy_open_dst_ok e \<and> name_ok dst \<and> dirs w dst = None"
        "files w1 dst \<noteq> None" "file_bytes w1 dst = []" "files w1 src = files w src"
        using op False ab ne
        by (auto simp: sys_open_creat_trunc_def split: if_splits)
      have sb: "file_bytes w1 src = file_bytes w src" using o(4) by (simp add: file_bytes_def)
      from copy_loop_prefix[OF cl] ne o(2,3)
      have "(c = 0 \<or> c = - 1) \<and> files w' dst \<noteq> None \<and> files w' src = files w1 src
        \<and> (\<exists>m. file_bytes w' dst = take m (file_bytes w1 src))
        \<and> (c = 0 \<longrightarrow> file_bytes w' dst = file_bytes w1 src)"
        by simp
      then show ?thesis using src o sb by auto
    qed
  qed
  show "c = 0 \<or> c = - 1" using all by blast
  show "files w' src = files w src" using all by blast
  show "(files w' dst = None) =
           (\<not> (copy_open_src_ok e \<and> files w src \<noteq> None \<and> copy_open_dst_ok e \<and> name_ok dst
               \<and> dirs w dst = None))" using all by blast
  show "\<exists>m. file_bytes w' dst = take m (file_bytes w src)" using all by blast
  show "c = 0 \<longrightarrow> files w' dst \<noteq> None \<and> file_bytes w' dst = file_bytes w src" using all by blast
qed

text \<open>
  C1, amended. When the staging of lines 196-202 fails (the rename fails and copy_file
  fails), main returns failure in the world that the staging left, so no sidecar is
  written, and the temp file is as before. For a destination that did not exist and is
  not the source: it is absent afterwards exactly when copy_file failed before making
  it (the source or the destination could not be opened); when a read or a write failed
  later, the destination is there and holds a prefix of the bytes of the source.
\<close>

theorem failed_stage_leaves_partial_copy:
  assumes st: "stage e tp dDoc w = Some (r, w')" and fail: "r \<noteq> 0"
    and ab: "files w dDoc = None" and ne: "tp \<noteq> dDoc"
  shows "r = - 1
     \<and> files w' tp = files w tp
     \<and> ((files w' dDoc = None) =
           (\<not> (copy_open_src_ok e \<and> files w tp \<noteq> None \<and> copy_open_dst_ok e \<and> name_ok dDoc
               \<and> dirs w dDoc = None)))
     \<and> (\<exists>m. file_bytes w' dDoc = take m (file_bytes w tp))
     \<and> (\<forall>P job_id user title w0 pw.
           getpwnam e user = Some pw \<and> pw_dir pw \<noteq> None
           \<and> ensure_queue_dirs P e [rootDir, incomingDir, processingDir, doneDir, failedDir]
                (snd (sniff_ext e tp w0)) = (True, w)
           \<and> dDoc = destDoc P job_id (time_now e) (fst (sniff_ext e tp w0))
           \<longrightarrow> queue_job P e job_id user title tp w0 = Some (CUPS_BACKEND_FAILED, w'))"
proof -
  obtain rr w1 where rn: "sys_rename e tp dDoc w = (rr, w1)" by (cases "sys_rename e tp dDoc w")
  have rr: "rr \<noteq> 0" using st fail rn by (auto simp: stage_def split: if_splits)
  then have w1: "w1 = w" using rn by (auto simp: sys_rename_def split: if_splits)
  obtain c w2 where cf: "copy_file e tp dDoc 420 w = Some (c, w2)"
    using st rn rr w1 by (auto simp: stage_def split: option.splits)
  have c: "c \<noteq> 0" using st fail rn rr w1 cf by (auto simp: stage_def split: if_splits)
  have res: "r = - 1" "w' = fprintf_stderr (MoveCopyFailed tp dDoc) w2"
    using st rn rr w1 cf c by (auto simp: stage_def)
  note cr = copy_file_result[OF cf ne ab]
  have q: "queue_job P e job_id user title tp w0 = Some (CUPS_BACKEND_FAILED, w')"
    if "getpwnam e user = Some pw" "pw_dir pw \<noteq> None"
      "ensure_queue_dirs P e [rootDir, incomingDir, processingDir, doneDir, failedDir]
                (snd (sniff_ext e tp w0)) = (True, w)"
      "dDoc = destDoc P job_id (time_now e) (fst (sniff_ext e tp w0))"
    for P job_id user title w0 pw
    using that st fail by (auto simp: queue_job_def Let_def split: prod.splits)
  show ?thesis
    using res cr(2,3,4) q by simp
qed

lemma ex_stage_fails:
  "map_option fst (stage ex_os_copy_fails ''/t/onenote-print-Ab12cd''
      (destDoc 1024 ''101'' 7 ''pdf'') (ex_temp_world ''%PDF-1.4'')) = Some (- 1)"
  by code_simp

theorem failed_stage_leaves_partial_copy_witness:
  "\<exists>r w'. stage ex_os_copy_fails ''/t/onenote-print-Ab12cd'' (destDoc 1024 ''101'' 7 ''pdf'')
             (ex_temp_world ''%PDF-1.4'') = Some (r, w')
     \<and> r \<noteq> 0
     \<and> files (ex_temp_world ''%PDF-1.4'') (destDoc 1024 ''101'' 7 ''pdf'') = None
     \<and> ''/t/onenote-print-Ab12cd'' \<noteq> destDoc 1024 ''101'' 7 ''pdf''
     \<and> r = - 1
     \<and> files w' (destDoc 1024 ''101'' 7 ''pdf'') \<noteq> None
     \<and> (\<exists>m. file_bytes w' (destDoc 1024 ''101'' 7 ''pdf'') = take m ''%PDF-1.4'')"
proof -
  let ?tp = "''/t/onenote-print-Ab12cd''" and ?d = "destDoc 1024 ''101'' 7 ''pdf''"
  let ?w = "ex_temp_world ''%PDF-1.4''"
  have d: "?d = ''/Users/Shared/OneNoteHelper/Incoming/job-101-7.pdf''"
    by (simp add: destDoc_def baseName_def snprintf_def incomingDir_def fmt_ld_def dec_nat.simps)
  obtain w' where st: "stage ex_os_copy_fails ?tp ?d ?w = Some (- 1, w')"
    using ex_stage_fails by (cases "stage ex_os_copy_fails ?tp ?d ?w") auto
  have ab: "files ?w ?d = None" by (simp add: d ex_temp_world_def)
  have ne: "?tp \<noteq> ?d" by (simp add: d)
  have fb: "file_bytes ?w ?tp = ''%PDF-1.4''"
    by (simp add: ex_temp_world_def ex_file_def file_bytes_def)
  have ok: "copy_open_src_ok ex_os_copy_fails \<and> files ?w ?tp \<noteq> None
      \<and> copy_open_dst_ok ex_os_copy_fails \<and> name_ok ?d \<and> dirs ?w ?d = None"
    by (simp add: ex_os_copy_fails_def ex_os_def ex_temp_world_def ex_world_def d name_ok_def
          NAME_MAX_def)
  from failed_stage_leaves_partial_copy[OF st _ ab ne] ok fb
  have "files w' ?d \<noteq> None \<and> (\<exists>m. file_bytes w' ?d = take m ''%PDF-1.4'')"
    by simp
  then show ?thesis using st ab ne by simp
qed

text \<open>
  C1 as stated fails: with a rename that fails and a copy whose second write fails, main
  returns failure and the document is in the queue directory, holding the first three
  bytes of the captured data.
\<close>

theorem failed_copy_leaves_document_counterexample:
  "rename_ok ex_os_copy_fails = False
   \<and> run_summary (destDoc 1024 ''101'' 7 ''pdf'')
       (main 1024 (ex_argv ''101'') ex_os_copy_fails ex_world)
     = Some (CUPS_BACKEND_FAILED, Some ''%PD'',
             [WroteBytes 8 ''/t/onenote-print-Ab12cd'',
              MoveCopyFailed ''/t/onenote-print-Ab12cd''
                ''/Users/Shared/OneNoteHelper/Incoming/job-101-7.pdf''])"
  by code_simp

end
